theory Spec2Isabelle
  imports Complex_Main "HOL-Library.Multiset" "HOL-Library.Product_Lexorder"
begin

section \<open>Hospital bed simulation: the data model\<close>

text \<open>
  The embedding follows \<^verbatim>\<open>hospital_simulation.py\<close>. Python floats are modelled as
  rationals with exact arithmetic (no rounding), Python ints as \<open>int\<close>. The sidebar
  widgets of the script become the fields of \<open>config\<close>; the two dictionaries keyed by
  patient type always hold both keys and are total functions.
\<close>

datatype patient_type = Medical | Surgical

datatype nmcr_reason = Internal | External

datatype error = ZeroDivisionError | ValueError | IndexError | RuntimeError

record config =
  SIMULATION_TIME :: int
  NUM_BEDS :: int
  ARRIVAL_RATES :: "patient_type \<Rightarrow> rat"
  MEAN_LOS :: "patient_type \<Rightarrow> rat"
  COMPLEXITY_FACTORS :: "patient_type \<Rightarrow> rat"
  ENABLE_BED_BOARDING :: bool
  EXTRA_BED_RATIO :: int
  NMCR_PROPORTION :: int
  NMCR_INTERNAL_PROPORTION :: int
  NMCR_INTERNAL_DELAY :: rat
  NMCR_EXTERNAL_DELAY :: rat

definition patient_types :: "patient_type list" where
  "patient_types = [Medical, Surgical]"

text \<open>
  The global numpy generator. After \<^verbatim>\<open>np.random.seed\<close> the value of the \<open>i\<close>-th call is
  fixed by the seed: \<open>uniform_draw i\<close> when the call asks for a uniform variate of
  \<open>[0, 1)\<close> (\<^verbatim>\<open>rand\<close>, and the one uniform that \<^verbatim>\<open>choice\<close> consumes), and
  \<open>exponential_draw i\<close> when it asks for a standard exponential variate, which
  \<^verbatim>\<open>exponential(scale)\<close> multiplies by \<open>scale\<close>.
\<close>

record np_random =
  uniform_draw :: "nat \<Rightarrow> rat"
  exponential_draw :: "nat \<Rightarrow> rat"

text \<open>
  The frame of one \<^verbatim>\<open>admit_patient\<close> generator once its body has started: its arguments,
  its locals, and the \<^verbatim>\<open>PriorityRequest\<close> it holds (\<open>priority\<close>, \<open>request_time\<close> and
  \<open>usage_since\<close>, which simpy sets when the request is granted). \<open>reason\<close> is \<open>None\<close>
  while the Python local is unbound.
\<close>

record patient =
  patient_id :: nat
  p_type :: patient_type
  length_of_stay :: rat
  arrival_time :: rat
  has_nmcr_delay :: bool
  reason :: "nmcr_reason option"
  total_length_of_stay :: rat
  priority :: nat
  request_time :: rat
  usage_since :: "rat option"

text \<open>One dictionary of \<^verbatim>\<open>hospital.patients\<close>, with the keys of the source.\<close>

record patient_record =
  Patient_ID :: nat
  Type :: patient_type
  Arrival_Time :: rat
  Length_of_Stay :: rat
  NMCR_Delay :: rat
  Total_LOS :: rat
  Discharge_Time :: rat
  NMCR_Reason :: "nmcr_reason option"

text \<open>
  A scheduled simpy event together with what its callbacks do when it is processed:
  \<^item> \<open>Initialize_monitor\<close>, \<open>Initialize_generator\<close>, \<open>Initialize_patient\<close>: the
    \<^verbatim>\<open>Initialize\<close> event of \<^verbatim>\<open>env.process\<close>, which starts the generator's body
    (a patient's with its three arguments);
  \<^item> \<open>Timeout_monitor\<close>, \<open>Timeout_generator\<close>, \<open>Timeout_patient\<close>: the \<^verbatim>\<open>Timeout\<close> on
    which \<^verbatim>\<open>monitor_occupancy\<close>, \<^verbatim>\<open>patient_generator\<close> (with its local
    \<^verbatim>\<open>patient_id\<close>) or \<^verbatim>\<open>admit_patient\<close> is suspended;
  \<^item> \<open>Request\<close>: a granted bed request, which resumes the patient that yielded it;
  \<^item> \<open>Release\<close>: the release of a bed, whose callback offers the bed to the wait queue;
  \<^item> \<open>Process_end\<close>: the event of a process whose generator returned (no callback);
  \<^item> \<open>Until\<close>: the event of \<^verbatim>\<open>env.run(until=...)\<close>, whose callback stops the run.
\<close>

datatype event =
    Initialize_monitor
  | Timeout_monitor
  | Initialize_generator
  | Timeout_generator nat
  | Initialize_patient nat patient_type rat
  | Request patient
  | Timeout_patient patient
  | Release
  | Process_end
  | Until

type_synonym event_key = "rat \<times> nat \<times> nat"

text \<open>
  The environment, the \<^verbatim>\<open>PriorityResource\<close> and the \<^verbatim>\<open>Hospital\<close> object in one record.
  \<open>queue\<close> is simpy's heap of \<open>(time, priority, eid, event)\<close>, kept as a list sorted
  by the key \<open>(time, priority, eid)\<close>; \<open>users\<close> holds the granted requests (each named
  by the patient that owns it); \<open>put_queue\<close> holds the waiting requests in the order of
  simpy's \<^verbatim>\<open>SortedQueue\<close>, each with the frame of the process suspended on it;
  \<open>draws\<close> counts the calls made to the numpy generator.
\<close>

record sim =
  now :: rat
  eid :: nat
  queue :: "(event_key \<times> event) list"
  capacity :: int
  users :: "nat list"
  put_queue :: "patient list"
  num_beds :: int
  occupied_beds :: int
  occupancy :: "int list"
  times_log :: "rat list"
  patients :: "patient_record list"
  draws :: nat

datatype outcome = Running sim | Stopped sim | Raised error

section \<open>The simpy environment\<close>

definition URGENT :: nat where
  "URGENT = 0"

definition NORMAL :: nat where
  "NORMAL = 1"

text \<open>\<^verbatim>\<open>Environment.schedule\<close>: push \<open>(now + delay, priority, next eid, event)\<close>.\<close>

definition schedule :: "event \<Rightarrow> nat \<Rightarrow> rat \<Rightarrow> sim \<Rightarrow> sim" where
  "schedule ev prio delay s =
     s\<lparr>queue := insort_key fst ((now s + delay, prio, eid s), ev) (queue s),
       eid := eid s + 1\<rparr>"

text \<open>\<^verbatim>\<open>env.timeout(delay)\<close>: a negative delay raises, otherwise the event is scheduled.\<close>

definition timeout :: "event \<Rightarrow> rat \<Rightarrow> sim \<Rightarrow> outcome" where
  "timeout ev delay s =
     (if delay < 0 then Raised ValueError else Running (schedule ev NORMAL delay s))"

text \<open>A generator that returns: its process event succeeds and is scheduled.\<close>

definition process_end :: "sim \<Rightarrow> sim" where
  "process_end s = schedule Process_end NORMAL 0 s"

section \<open>The numpy generator\<close>

definition rand :: "np_random \<Rightarrow> sim \<Rightarrow> rat \<times> sim" where
  "rand rng s = (uniform_draw rng (draws s), s\<lparr>draws := draws s + 1\<rparr>)"

definition exponential :: "np_random \<Rightarrow> rat \<Rightarrow> sim \<Rightarrow> error + rat \<times> sim" where
  "exponential rng scale s =
     (if scale < 0 then Inl ValueError
      else Inr (scale * exponential_draw rng (draws s), s\<lparr>draws := draws s + 1\<rparr>))"

fun cumsum :: "rat \<Rightarrow> rat list \<Rightarrow> rat list" where
  "cumsum acc [] = []"
| "cumsum acc (x # xs) = (acc + x) # cumsum (acc + x) xs"

text \<open>
  \<^verbatim>\<open>np.random.choice(a, p=p)\<close>: the probabilities are checked, then one uniform variate
  is located in the normalised cumulative sums (\<^verbatim>\<open>searchsorted(..., side='right')\<close>: the
  number of entries not above it) and indexes \<open>a\<close>.
\<close>

definition choice :: "np_random \<Rightarrow> 'a list \<Rightarrow> rat list \<Rightarrow> sim \<Rightarrow> error + 'a \<times> sim" where
  "choice rng a p s =
     (if length p \<noteq> length a \<or> (\<exists>x \<in> set p. x < 0) \<or> sum_list p \<noteq> 1 then Inl ValueError
      else
        let cdf = map (\<lambda>c. c / sum_list p) (cumsum 0 p);
            u = uniform_draw rng (draws s);
            idx = length (filter (\<lambda>c. c \<le> u) cdf)
        in if idx < length a then Inr (a ! idx, s\<lparr>draws := draws s + 1\<rparr>)
           else Inl IndexError)"

section \<open>The priority resource\<close>

text \<open>The sort key of a \<^verbatim>\<open>PriorityRequest\<close>: \<open>(priority, time, not preempt)\<close>.\<close>

definition request_key :: "patient \<Rightarrow> nat \<times> rat \<times> bool" where
  "request_key f = (priority f, request_time f, False)"

text \<open>
  \<^verbatim>\<open>_trigger_put\<close> with \<^verbatim>\<open>Resource._do_put\<close>: the first waiting request is granted if
  a slot is free (it joins \<open>users\<close>, \<open>usage_since\<close> is set, its event is scheduled and it
  leaves the queue). \<^verbatim>\<open>_do_put\<close> returns nothing, so the loop stops after one request.
\<close>

definition trigger_put :: "sim \<Rightarrow> sim" where
  "trigger_put s =
     (case put_queue s of
        [] \<Rightarrow> s
      | f # waiting \<Rightarrow>
          if int (length (users s)) < capacity s
          then schedule (Request (f\<lparr>usage_since := Some (now s)\<rparr>)) NORMAL 0
                 (s\<lparr>users := users s @ [patient_id f], put_queue := waiting\<rparr>)
          else s)"

text \<open>
  \<^verbatim>\<open>resource.request(priority=...)\<close>: the request is appended to the sorted queue (a
  stable sort by key), then the queue is triggered.
\<close>

definition request :: "patient \<Rightarrow> sim \<Rightarrow> sim" where
  "request f s = trigger_put (s\<lparr>put_queue := sort_key request_key (put_queue s @ [f])\<rparr>)"

text \<open>
  \<^verbatim>\<open>resource.release(request)\<close>, called when the \<^verbatim>\<open>with\<close> block is left: the request
  is removed from \<open>users\<close> and the \<^verbatim>\<open>Release\<close> event is scheduled.
\<close>

definition release :: "patient \<Rightarrow> sim \<Rightarrow> sim" where
  "release f s = schedule Release NORMAL 0 (s\<lparr>users := remove1 (patient_id f) (users s)\<rparr>)"

section \<open>The hospital and its processes\<close>

definition record_occupancy :: "sim \<Rightarrow> sim" where
  "record_occupancy s =
     s\<lparr>occupancy := occupancy s @ [occupied_beds s], times_log := times_log s @ [now s]\<rparr>"

text \<open>One round of \<^verbatim>\<open>monitor_occupancy\<close>: record, then wait one time unit.\<close>

definition monitor_occupancy :: "sim \<Rightarrow> outcome" where
  "monitor_occupancy s = timeout Timeout_monitor 1 (record_occupancy s)"

text \<open>
  The priority of lines 110 to 116, from the occupancy at the time of the request.
\<close>

definition request_priority :: "config \<Rightarrow> sim \<Rightarrow> nat" where
  "request_priority cfg s =
     (if occupied_beds s < num_beds s then 0
      else if ENABLE_BED_BOARDING cfg
              \<and> occupied_beds s < num_beds s + num_beds s div EXTRA_BED_RATIO cfg then 1
      else 2)"

text \<open>
  \<^verbatim>\<open>admit_patient\<close> from its first line to \<^verbatim>\<open>yield request\<close>: the NMCR draws, the
  priority, the request.
\<close>

definition admit_patient :: "config \<Rightarrow> np_random \<Rightarrow> nat \<Rightarrow> patient_type \<Rightarrow> rat \<Rightarrow> sim \<Rightarrow> outcome" where
  "admit_patient cfg rng pid ptype los s =
     (let (u, s1) = rand rng s;
          delayed = (u < of_int (NMCR_PROPORTION cfg) / 100);
          f = \<lparr>patient_id = pid, p_type = ptype, length_of_stay = los,
               arrival_time = now s, has_nmcr_delay = delayed, reason = None,
               total_length_of_stay = los, priority = 0, request_time = now s,
               usage_since = None\<rparr>
      in if delayed then
           (let (u2, s2) = rand rng s1;
                r = (if u2 < of_int (NMCR_INTERNAL_PROPORTION cfg) / 100 then Internal else External)
            in case exponential rng
                      (if r = Internal then NMCR_INTERNAL_DELAY cfg else NMCR_EXTERNAL_DELAY cfg) s2 of
                 Inl e \<Rightarrow> Raised e
               | Inr (additional_delay, s3) \<Rightarrow>
                   Running (request (f\<lparr>reason := Some r,
                                       total_length_of_stay := los + additional_delay,
                                       priority := request_priority cfg s3\<rparr>) s3))
         else Running (request (f\<lparr>priority := request_priority cfg s1\<rparr>) s1))"

text \<open>\<^verbatim>\<open>admit_patient\<close> resumed by its granted request, up to the timeout of the stay.\<close>

definition occupy_bed :: "patient \<Rightarrow> sim \<Rightarrow> outcome" where
  "occupy_bed f s =
     timeout (Timeout_patient f) (total_length_of_stay f)
       (record_occupancy (s\<lparr>occupied_beds := occupied_beds s + 1\<rparr>))"

text \<open>
  \<^verbatim>\<open>admit_patient\<close> resumed after the stay: the bed count, the sample, the release on
  leaving the \<^verbatim>\<open>with\<close> block, the record, and the end of the process.
\<close>

definition discharge :: "patient \<Rightarrow> sim \<Rightarrow> sim" where
  "discharge f s =
     (let s1 = release f (record_occupancy (s\<lparr>occupied_beds := occupied_beds s - 1\<rparr>))
      in process_end
           (s1\<lparr>patients := patients s1 @
                 [\<lparr>Patient_ID = patient_id f, Type = p_type f,
                   Arrival_Time = arrival_time f, Length_of_Stay = length_of_stay f,
                   NMCR_Delay = (if has_nmcr_delay f
                                 then total_length_of_stay f - length_of_stay f else 0),
                   Total_LOS = total_length_of_stay f, Discharge_Time = now s1,
                   NMCR_Reason = (if has_nmcr_delay f then reason f else None)\<rparr>]\<rparr>))"

text \<open>
  \<^verbatim>\<open>patient_generator\<close> at the head of its loop, with the local \<^verbatim>\<open>patient_id\<close>: it
  returns when the horizon is reached or the total rate is zero, otherwise it draws the
  inter-arrival time and waits.
\<close>

definition patient_generator :: "config \<Rightarrow> np_random \<Rightarrow> nat \<Rightarrow> sim \<Rightarrow> outcome" where
  "patient_generator cfg rng pid s =
     (if now s < of_int (SIMULATION_TIME cfg) then
        (let total_rate = sum_list (map (ARRIVAL_RATES cfg) patient_types)
         in if total_rate = 0 then Running (process_end s)
            else case exponential rng (1 / total_rate) s of
                   Inl e \<Rightarrow> Raised e
                 | Inr (inter_arrival_time, s1) \<Rightarrow>
                     timeout (Timeout_generator pid) inter_arrival_time s1)
      else Running (process_end s))"

text \<open>
  \<^verbatim>\<open>patient_generator\<close> resumed by its timeout: the type (the division of a rate by
  a zero total raises), the length of stay, the new patient process, then the head of the
  loop again.
\<close>

definition spawn_patient :: "config \<Rightarrow> np_random \<Rightarrow> nat \<Rightarrow> sim \<Rightarrow> outcome" where
  "spawn_patient cfg rng pid s =
     (let total_rate = sum_list (map (ARRIVAL_RATES cfg) patient_types)
      in if total_rate = 0 then Raised ZeroDivisionError
         else case choice rng patient_types
                     (map (\<lambda>p. ARRIVAL_RATES cfg p / total_rate) patient_types) s of
                Inl e \<Rightarrow> Raised e
              | Inr (ptype, s1) \<Rightarrow>
                  (case exponential rng (MEAN_LOS cfg ptype) s1 of
                     Inl e \<Rightarrow> Raised e
                   | Inr (x, s2) \<Rightarrow>
                       patient_generator cfg rng (pid + 1)
                         (schedule
                            (Initialize_patient pid ptype (x * COMPLEXITY_FACTORS cfg ptype))
                            URGENT 0 s2)))"

section \<open>The event loop\<close>

text \<open>
  \<^verbatim>\<open>Environment.step\<close>: pop the least event, advance the clock to its time, run its
  callbacks. An empty schedule while the \<open>Until\<close> event is pending is a
  \<^verbatim>\<open>RuntimeError\<close>. An exception that escapes a process makes \<^verbatim>\<open>env.run\<close> raise it;
  the model ends the run at the step that raises.
\<close>

definition step :: "config \<Rightarrow> np_random \<Rightarrow> sim \<Rightarrow> outcome" where
  "step cfg rng s =
     (case queue s of
        [] \<Rightarrow> Raised RuntimeError
      | ((t, prio, i), ev) # q \<Rightarrow>
          (let s' = s\<lparr>now := t, queue := q\<rparr>
           in case ev of
                Initialize_monitor \<Rightarrow> monitor_occupancy s'
              | Timeout_monitor \<Rightarrow> monitor_occupancy s'
              | Initialize_generator \<Rightarrow> patient_generator cfg rng 0 s'
              | Timeout_generator pid \<Rightarrow> spawn_patient cfg rng pid s'
              | Initialize_patient pid ptype los \<Rightarrow> admit_patient cfg rng pid ptype los s'
              | Request f \<Rightarrow> occupy_bed f s'
              | Timeout_patient f \<Rightarrow> Running (discharge f s')
              | Release \<Rightarrow> Running (trigger_put s')
              | Process_end \<Rightarrow> Running s'
              | Until \<Rightarrow> Stopped s'))"

text \<open>
  The loop of \<^verbatim>\<open>env.run\<close>, with fuel: \<open>Running s\<close> is the state reached after \<open>n\<close>
  steps of a run that has neither stopped nor raised yet.
\<close>

fun env_run :: "config \<Rightarrow> np_random \<Rightarrow> nat \<Rightarrow> sim \<Rightarrow> outcome" where
  "env_run cfg rng 0 s = Running s"
| "env_run cfg rng (Suc n) s =
     (case step cfg rng s of
        Running s' \<Rightarrow> env_run cfg rng n s'
      | Stopped s' \<Rightarrow> Stopped s'
      | Raised e \<Rightarrow> Raised e)"

text \<open>
  The state in which the loop of \<^verbatim>\<open>env.run\<close> starts, when the numpy generator has
  made \<open>d\<close> calls so far: \<^verbatim>\<open>Hospital.__init__\<close> has built the resource (a zero ratio
  makes the floor division raise, a capacity that is not positive makes simpy raise) and
  registered the monitor, the generator process is registered, and \<^verbatim>\<open>env.run\<close> has
  scheduled the \<open>Until\<close> event (urgent) at the horizon, or raised for a horizon that is not
  in the future.
\<close>

definition hospital_init :: "int \<Rightarrow> int \<Rightarrow> nat \<Rightarrow> sim" where
  "hospital_init n cap d =
     schedule Initialize_monitor URGENT 0
       \<lparr>now = 0, eid = 0, queue = [], capacity = cap, users = [], put_queue = [],
        num_beds = n, occupied_beds = 0, occupancy = [], times_log = [], patients = [],
        draws = d\<rparr>"

definition start :: "config \<Rightarrow> nat \<Rightarrow> error + sim" where
  "start cfg d =
     (if EXTRA_BED_RATIO cfg = 0 then Inl ZeroDivisionError
      else if NUM_BEDS cfg + NUM_BEDS cfg div EXTRA_BED_RATIO cfg \<le> 0 then Inl ValueError
      else
        let s = schedule Initialize_generator URGENT 0
                  (hospital_init (NUM_BEDS cfg)
                     (NUM_BEDS cfg + NUM_BEDS cfg div EXTRA_BED_RATIO cfg) d)
        in if of_int (SIMULATION_TIME cfg) \<le> now s then Inl ValueError
           else Inr (schedule Until URGENT (of_int (SIMULATION_TIME cfg) - now s) s))"

text \<open>
  \<^verbatim>\<open>run_simulation\<close>, with the fuel of the loop: what it returns, raises, or the state
  it is in when the fuel runs out.
\<close>

definition run_simulation :: "config \<Rightarrow> np_random \<Rightarrow> nat \<Rightarrow> nat \<Rightarrow> outcome" where
  "run_simulation cfg rng d n =
     (case start cfg d of Inl e \<Rightarrow> Raised e | Inr s \<Rightarrow> env_run cfg rng n s)"

text \<open>The triple \<^verbatim>\<open>run_simulation\<close> returns once the run has stopped.\<close>

definition returned :: "sim \<Rightarrow> rat list \<times> int list \<times> patient_record list" where
  "returned s = (times_log s, occupancy s, patients s)"

text \<open>
  The script around it: \<^verbatim>\<open>np.random.seed(42)\<close> replaces the state of the global
  generator, whatever it was (\<open>ambient\<close>: a sequence and the number of calls made), by
  the state the seeding algorithm \<open>mt\<close> derives from the seed; then \<^verbatim>\<open>run_simulation()\<close>
  is called.
\<close>

definition seed :: "(int \<Rightarrow> np_random) \<Rightarrow> int \<Rightarrow> np_random \<times> nat \<Rightarrow> np_random \<times> nat" where
  "seed mt k ambient = (mt k, 0)"

definition script :: "(int \<Rightarrow> np_random) \<Rightarrow> config \<Rightarrow> np_random \<times> nat \<Rightarrow> nat \<Rightarrow> outcome" where
  "script mt cfg ambient n =
     (let (rng, d) = seed mt 42 ambient in run_simulation cfg rng d n)"

definition state_of :: "outcome \<Rightarrow> sim option" where
  "state_of r = (case r of Running s \<Rightarrow> Some s | Stopped s \<Rightarrow> Some s | Raised e \<Rightarrow> None)"

section \<open>Invariants of a run\<close>

text \<open>The events of the schedule, without their keys.\<close>

definition pending :: "(event_key \<times> event) list \<Rightarrow> event multiset" where
  "pending q = image_mset snd (mset q)"

text \<open>
  The patient whose granted request an event carries: a \<open>Request\<close> not yet processed,
  or the timeout of a stay.
\<close>

fun holder :: "event \<Rightarrow> nat multiset" where
  "holder (Request f) = {#patient_id f#}"
| "holder (Timeout_patient f) = {#patient_id f#}"
| "holder ev = {#}"

fun staying :: "event \<Rightarrow> bool" where
  "staying (Timeout_patient f) = True"
| "staying ev = False"

text \<open>
  The resource and the bed count: the users are the patients whose request was granted
  and who have not left, the bed count is the number of stays in progress, the users fit
  the capacity fixed by \<^verbatim>\<open>Hospital.__init__\<close>, and every sample is within it.
\<close>

definition bed_invariant :: "config \<Rightarrow> sim \<Rightarrow> bool" where
  "bed_invariant cfg s \<longleftrightarrow>
     capacity s = NUM_BEDS cfg + NUM_BEDS cfg div EXTRA_BED_RATIO cfg \<and>
     mset (users s) = (\<Sum>ev \<in># pending (queue s). holder ev) \<and>
     occupied_beds s = int (size (filter_mset staying (pending (queue s)))) \<and>
     int (length (users s)) \<le> capacity s \<and>
     (\<forall>k \<in> set (occupancy s). 0 \<le> k \<and> k \<le> capacity s)"

section \<open>Example configurations\<close>

text \<open>
  One bed, one extra bed (ratio 1), boarding disabled, one Medical arrival per time
  unit, stays of mean 10, no NMCR delay, three days.
\<close>

definition no_boarding_config :: config where
  "no_boarding_config =
     \<lparr>SIMULATION_TIME = 3, NUM_BEDS = 1,
      ARRIVAL_RATES = (\<lambda>p. case p of Medical \<Rightarrow> 1 | Surgical \<Rightarrow> 0),
      MEAN_LOS = (\<lambda>p. 10), COMPLEXITY_FACTORS = (\<lambda>p. 1),
      ENABLE_BED_BOARDING = False, EXTRA_BED_RATIO = 1, NMCR_PROPORTION = 0,
      NMCR_INTERNAL_PROPORTION = 50, NMCR_INTERNAL_DELAY = 2, NMCR_EXTERNAL_DELAY = 5\<rparr>"

text \<open>A generator whose uniform variates are all 1/2 and exponential variates all 1.\<close>

definition steady_random :: np_random where
  "steady_random = \<lparr>uniform_draw = (\<lambda>i. 1 / 2), exponential_draw = (\<lambda>i. 1)\<rparr>"

text \<open>The same configuration with boarding enabled.\<close>

definition boarding_config :: config where
  "boarding_config = no_boarding_config\<lparr>ENABLE_BED_BOARDING := True\<rparr>"

section \<open>The occupancy and length-of-stay page\<close>

text \<open>
  The calculator of \<^verbatim>\<open>pages/1_Occupancy_and_LOS.py\<close>: its widgets, and what it shows. The
  page stops after a warning when the total arrival rate is zero; otherwise it computes
  the ideal average length of stay and, when the weighted average of the current mean
  lengths of stay is further than 0.01 from it, proposes adjusted values (dividing by a
  zero weighted average raises).
\<close>

record los_page =
  page_NUM_BEDS :: int
  page_ARRIVAL_RATES :: "patient_type \<Rightarrow> rat"
  target_occupancy_rate :: int
  current_mean_los :: "patient_type \<Rightarrow> rat"

datatype page_outcome =
    Page_stopped
  | Page_aligned rat
  | Page_adjusted rat "patient_type \<Rightarrow> rat"
  | Page_raised error

definition total_arrival_rate :: "los_page \<Rightarrow> rat" where
  "total_arrival_rate c = foldl (\<lambda>total p. total + page_ARRIVAL_RATES c p) 0 patient_types"

definition ideal_average_los :: "los_page \<Rightarrow> rat" where
  "ideal_average_los c =
     (of_int (target_occupancy_rate c) / 100 * of_int (page_NUM_BEDS c)) / total_arrival_rate c"

definition weighted_average_los :: "los_page \<Rightarrow> rat" where
  "weighted_average_los c =
     sum_list (map (\<lambda>p. page_ARRIVAL_RATES c p * current_mean_los c p) patient_types)
       / sum_list (map (page_ARRIVAL_RATES c) patient_types)"

definition adjusted_los :: "los_page \<Rightarrow> patient_type \<Rightarrow> rat" where
  "adjusted_los c p =
     current_mean_los c p * (ideal_average_los c / weighted_average_los c)"

definition occupancy_and_los :: "los_page \<Rightarrow> page_outcome" where
  "occupancy_and_los c =
     (if total_arrival_rate c = 0 then Page_stopped
      else if 1 / 100 < \<bar>weighted_average_los c - ideal_average_los c\<bar> then
        (if weighted_average_los c = 0 then Page_raised ZeroDivisionError
         else Page_adjusted (ideal_average_los c) (adjusted_los c))
      else Page_aligned (ideal_average_los c))"

text \<open>The defaults of the page: 100 beds, 5 arrivals a day of each type, 85%, 7 days.\<close>

definition default_page :: los_page where
  "default_page =
     \<lparr>page_NUM_BEDS = 100, page_ARRIVAL_RATES = (\<lambda>p. 5), target_occupancy_rate = 85,
      current_mean_los = (\<lambda>p. 7)\<rparr>"

section \<open>A run without arrivals\<close>

text \<open>
  The state of a run whose generator has returned at once, when the monitor has recorded
  \<open>k\<close> samples and waits for its next round: only the monitor's timeout and the \<open>Until\<close>
  event are scheduled.
\<close>

definition idle_state :: "config \<Rightarrow> nat \<Rightarrow> nat \<Rightarrow> sim" where
  "idle_state cfg d k =
     \<lparr>now = of_nat (k - 1), eid = k + 4,
      queue = insort_key fst ((of_nat k, NORMAL, if k = 1 then 3 else k + 3), Timeout_monitor)
                [((of_int (SIMULATION_TIME cfg), URGENT, 2), Until)],
      capacity = NUM_BEDS cfg + NUM_BEDS cfg div EXTRA_BED_RATIO cfg, users = [],
      put_queue = [], num_beds = NUM_BEDS cfg, occupied_beds = 0,
      occupancy = replicate k 0, times_log = map of_nat [0..<k], patients = [], draws = d\<rparr>"

text \<open>The configuration of the examples with both arrival rates zero.\<close>

definition zero_rate_config :: config where
  "zero_rate_config = no_boarding_config\<lparr>ARRIVAL_RATES := (\<lambda>p. 0)\<rparr>"

section \<open>The clock and the times of a stay\<close>

text \<open>
  What the time of a scheduled event says about the patient it resumes: a granted
  request is processed at the time of the grant, and the timeout of a stay falls one
  total length of stay after the grant; the request was made on arrival, and was not
  granted before.
\<close>

fun event_timing :: "rat \<Rightarrow> event \<Rightarrow> bool" where
  "event_timing t (Request f) =
     (usage_since f = Some t \<and> request_time f = arrival_time f \<and> arrival_time f \<le> t)"
| "event_timing t (Timeout_patient f) =
     (case usage_since f of
        None \<Rightarrow> False
      | Some a \<Rightarrow> request_time f = arrival_time f \<and> arrival_time f \<le> a
                 \<and> t = a + total_length_of_stay f)"
| "event_timing t ev = True"

text \<open>
  The schedule is sorted, no event is scheduled in the past, the scheduled events agree
  with their patients, the waiting patients arrived in the past, and every logged stay
  lasted at least its total length.
\<close>

definition clock_invariant :: "sim \<Rightarrow> bool" where
  "clock_invariant s \<longleftrightarrow>
     sorted (map fst (queue s)) \<and>
     (\<forall>x \<in> set (queue s). now s \<le> fst (fst x) \<and> event_timing (fst (fst x)) (snd x)) \<and>
     (\<forall>f \<in> set (put_queue s). request_time f = arrival_time f \<and> arrival_time f \<le> now s) \<and>
     (\<forall>r \<in> set (patients s). Total_LOS r \<le> Discharge_Time r - Arrival_Time r)"

text \<open>
  One bed and no extra bed (ratio 2), one Medical arrival per time unit, stays of mean
  3/2, five days: the second patient waits for the first to leave, and the fourth is
  still waiting at the horizon.
\<close>

definition queueing_config :: config where
  "queueing_config =
     \<lparr>SIMULATION_TIME = 5, NUM_BEDS = 1,
      ARRIVAL_RATES = (\<lambda>p. case p of Medical \<Rightarrow> 1 | Surgical \<Rightarrow> 0),
      MEAN_LOS = (\<lambda>p. 3 / 2), COMPLEXITY_FACTORS = (\<lambda>p. 1),
      ENABLE_BED_BOARDING = True, EXTRA_BED_RATIO = 2, NMCR_PROPORTION = 0,
      NMCR_INTERNAL_PROPORTION = 50, NMCR_INTERNAL_DELAY = 2, NMCR_EXTERNAL_DELAY = 5\<rparr>"

section \<open>The NMCR outcome\<close>

text \<open>
  The outcome as the specification words it, from the variates of three consecutive
  calls starting at call \<open>i\<close>: the first uniform variate decides whether there is a delay
  (it is below \<open>NMCR_PROPORTION / 100\<close> with that probability), the second whether the
  reason is internal, and the exponential variate scaled by the mean delay of the reason
  is the delay; without a delay the reason is \<open>None\<close> and the delay 0.
\<close>

definition nmcr_outcome :: "config \<Rightarrow> np_random \<Rightarrow> nat \<Rightarrow> nmcr_reason option \<times> rat" where
  "nmcr_outcome cfg rng i =
     (if uniform_draw rng i < of_int (NMCR_PROPORTION cfg) / 100 then
        (if uniform_draw rng (i + 1) < of_int (NMCR_INTERNAL_PROPORTION cfg) / 100
         then (Some Internal, NMCR_INTERNAL_DELAY cfg * exponential_draw rng (i + 2))
         else (Some External, NMCR_EXTERNAL_DELAY cfg * exponential_draw rng (i + 2)))
      else (None, 0))"

text \<open>The number of calls the outcome consumes.\<close>

definition nmcr_calls :: "config \<Rightarrow> np_random \<Rightarrow> nat \<Rightarrow> nat" where
  "nmcr_calls cfg rng i = (case fst (nmcr_outcome cfg rng i) of None \<Rightarrow> 1 | Some r \<Rightarrow> 3)"

text \<open>A frame, and a record of the log, whose NMCR fields are such an outcome.\<close>

definition nmcr_frame :: "config \<Rightarrow> np_random \<Rightarrow> patient \<Rightarrow> bool" where
  "nmcr_frame cfg rng f \<longleftrightarrow>
     (\<exists>i. (reason f, total_length_of_stay f - length_of_stay f) = nmcr_outcome cfg rng i
          \<and> has_nmcr_delay f = (reason f \<noteq> None))"

definition nmcr_record :: "config \<Rightarrow> np_random \<Rightarrow> patient_record \<Rightarrow> bool" where
  "nmcr_record cfg rng r \<longleftrightarrow>
     (\<exists>i. (NMCR_Reason r, NMCR_Delay r) = nmcr_outcome cfg rng i)
     \<and> Total_LOS r = Length_of_Stay r + NMCR_Delay r"

fun event_nmcr :: "config \<Rightarrow> np_random \<Rightarrow> event \<Rightarrow> bool" where
  "event_nmcr cfg rng (Request f) = nmcr_frame cfg rng f"
| "event_nmcr cfg rng (Timeout_patient f) = nmcr_frame cfg rng f"
| "event_nmcr cfg rng ev = True"

definition nmcr_invariant :: "config \<Rightarrow> np_random \<Rightarrow> sim \<Rightarrow> bool" where
  "nmcr_invariant cfg rng s \<longleftrightarrow>
     (\<forall>x \<in> set (queue s). event_nmcr cfg rng (snd x)) \<and>
     (\<forall>f \<in> set (put_queue s). nmcr_frame cfg rng f) \<and>
     (\<forall>r \<in> set (patients s). nmcr_record cfg rng r)"

text \<open>
  The configuration of the queueing example with every patient delayed (proportion 100)
  for an internal reason (proportion 100).
\<close>

definition delayed_config :: config where
  "delayed_config = queueing_config\<lparr>NMCR_PROPORTION := 100, NMCR_INTERNAL_PROPORTION := 100\<rparr>"

section \<open>The occupancy samples\<close>

fun is_monitor :: "event \<Rightarrow> bool" where
  "is_monitor Initialize_monitor = True"
| "is_monitor Timeout_monitor = True"
| "is_monitor ev = False"

text \<open>
  The monitor process has exactly one event in the schedule, at the whole time \<open>m\<close>: its
  start at time 0, or the timeout of its round \<open>m - 1\<close>.
\<close>

definition monitor_at :: "(event_key \<times> event) list \<Rightarrow> nat \<Rightarrow> bool" where
  "monitor_at q m \<longleftrightarrow>
     (\<exists>p i ev. filter_mset (is_monitor \<circ> snd) (mset q) = {#((of_nat m, p, i), ev)#}
        \<and> (ev = Timeout_monitor \<and> p = NORMAL \<or> ev = Initialize_monitor \<and> m = 0))"

text \<open>The \<open>Until\<close> event is scheduled, urgent, at the horizon.\<close>

definition until_pending :: "config \<Rightarrow> (event_key \<times> event) list \<Rightarrow> bool" where
  "until_pending cfg q \<longleftrightarrow>
     (\<forall>x \<in> set q. snd x = Until \<longrightarrow>
        fst (fst x) = of_int (SIMULATION_TIME cfg) \<and> fst (snd (fst x)) = URGENT)
     \<and> (\<exists>x \<in> set q. snd x = Until)"

text \<open>
  While the run goes on: the monitor has recorded its rounds \<open>0, \<dots>, m - 1\<close> and waits
  for round \<open>m\<close>, which is not beyond the horizon; besides these \<open>m\<close> samples there is one
  for every admission and one for every discharge, that is one for every stay in
  progress and two for every record of the log.
\<close>

definition sample_invariant :: "config \<Rightarrow> sim \<Rightarrow> bool" where
  "sample_invariant cfg s \<longleftrightarrow>
     0 < SIMULATION_TIME cfg \<and> sorted (map fst (queue s)) \<and> until_pending cfg (queue s) \<and>
     length (occupancy s) = length (times_log s) \<and>
     (\<exists>m. monitor_at (queue s) m \<and> int m \<le> SIMULATION_TIME cfg
        \<and> (\<forall>k < m. of_nat k \<in> set (times_log s))
        \<and> length (times_log s)
            = m + size (filter_mset staying (pending (queue s))) + 2 * length (patients s))"

section \<open>Patients that are never admitted\<close>

text \<open>The patient an event belongs to, wherever the patient is in its life.\<close>

fun event_ids :: "event \<Rightarrow> nat multiset" where
  "event_ids (Initialize_patient pid ptype los) = {#pid#}"
| "event_ids (Request f) = {#patient_id f#}"
| "event_ids (Timeout_patient f) = {#patient_id f#}"
| "event_ids ev = {#}"

text \<open>Every patient of the run: scheduled, waiting for a bed, or in the log.\<close>

definition all_ids :: "sim \<Rightarrow> nat multiset" where
  "all_ids s =
     (\<Sum>ev \<in># pending (queue s). event_ids ev)
     + image_mset patient_id (mset (put_queue s))
     + image_mset Patient_ID (mset (patients s))"

text \<open>The next \<^verbatim>\<open>patient_id\<close> of the arrival generator, for its events.\<close>

fun generator_next :: "event \<Rightarrow> nat option" where
  "generator_next Initialize_generator = Some 0"
| "generator_next (Timeout_generator pid) = Some pid"
| "generator_next ev = None"

fun is_generator :: "event \<Rightarrow> bool" where
  "is_generator Initialize_generator = True"
| "is_generator (Timeout_generator pid) = True"
| "is_generator ev = False"

text \<open>
  No two patients share an identifier: there is at most one generator event, every
  patient so far has an identifier below the generator's next one, and no identifier
  occurs twice; and a waiting request has not been granted.
\<close>

definition id_invariant :: "sim \<Rightarrow> bool" where
  "id_invariant s \<longleftrightarrow>
     (\<forall>x. count (all_ids s) x \<le> 1) \<and>
     size (filter_mset is_generator (pending (queue s))) \<le> 1 \<and>
     (\<forall>ev \<in># pending (queue s). \<forall>k. generator_next ev = Some k \<longrightarrow> (\<forall>x \<in># all_ids s. x < k)) \<and>
     (\<forall>f \<in> set (put_queue s). usage_since f = None)"

section \<open>Runs that reach the horizon\<close>

text \<open>The configurations the sidebar of the script can produce (the bounds of its widgets).\<close>

definition valid_config :: "config \<Rightarrow> bool" where
  "valid_config cfg \<longleftrightarrow>
     1 \<le> SIMULATION_TIME cfg \<and> 1 \<le> NUM_BEDS cfg \<and> 1 \<le> EXTRA_BED_RATIO cfg \<and>
     (\<forall>p. 0 \<le> ARRIVAL_RATES cfg p) \<and> (\<forall>p. 1 / 10 \<le> MEAN_LOS cfg p) \<and>
     (\<forall>p. 1 / 2 \<le> COMPLEXITY_FACTORS cfg p \<and> COMPLEXITY_FACTORS cfg p \<le> 2) \<and>
     0 \<le> NMCR_PROPORTION cfg \<and> NMCR_PROPORTION cfg \<le> 100 \<and>
     0 \<le> NMCR_INTERNAL_PROPORTION cfg \<and> NMCR_INTERNAL_PROPORTION cfg \<le> 100 \<and>
     1 / 10 \<le> NMCR_INTERNAL_DELAY cfg \<and> 1 / 10 \<le> NMCR_EXTERNAL_DELAY cfg"

text \<open>
  A generator whose uniform variates are in \<open>[0, 1)\<close> and whose exponential variates are
  at least \<open>least\<close>, a positive number: the arrivals cannot accumulate before the horizon.
\<close>

definition valid_random :: "np_random \<Rightarrow> rat \<Rightarrow> bool" where
  "valid_random rng least \<longleftrightarrow>
     0 < least \<and>
     (\<forall>i. 0 \<le> uniform_draw rng i \<and> uniform_draw rng i < 1 \<and> least \<le> exponential_draw rng i)"

text \<open>What keeps the processes from raising: stays are not negative, and the
  generator only waits when the total rate is not zero.\<close>

fun event_live :: "config \<Rightarrow> event \<Rightarrow> bool" where
  "event_live cfg (Initialize_patient pid ptype los) = (0 \<le> los)"
| "event_live cfg (Request f) = (0 \<le> total_length_of_stay f)"
| "event_live cfg (Timeout_generator pid) =
     (sum_list (map (ARRIVAL_RATES cfg) patient_types) \<noteq> 0)"
| "event_live cfg ev = True"

definition live_invariant :: "config \<Rightarrow> sim \<Rightarrow> bool" where
  "live_invariant cfg s \<longleftrightarrow>
     (\<forall>x \<in> set (queue s). event_live cfg (snd x)) \<and>
     (\<forall>f \<in> set (put_queue s). 0 \<le> total_length_of_stay f)"

text \<open>
  A bound on the steps an event scheduled at time \<open>t\<close> can still cause, when two
  arrivals are at least \<open>gap\<close> apart: a patient's events count down from 5, the
  monitor's count the rounds left before the horizon, the generator's six steps for each
  arrival that still fits before the horizon.
\<close>

fun event_weight :: "config \<Rightarrow> rat \<Rightarrow> rat \<Rightarrow> event \<Rightarrow> nat" where
  "event_weight cfg gap t Initialize_monitor = nat \<lceil>of_int (SIMULATION_TIME cfg) + 1 - t\<rceil>"
| "event_weight cfg gap t Timeout_monitor = nat \<lceil>of_int (SIMULATION_TIME cfg) + 1 - t\<rceil>"
| "event_weight cfg gap t Initialize_generator =
     6 * nat \<lceil>(of_int (SIMULATION_TIME cfg) - t) / gap\<rceil> + 8"
| "event_weight cfg gap t (Timeout_generator pid) =
     6 * nat \<lceil>(of_int (SIMULATION_TIME cfg) - t) / gap\<rceil> + 8"
| "event_weight cfg gap t (Initialize_patient pid ptype los) = 5"
| "event_weight cfg gap t (Request f) = 4"
| "event_weight cfg gap t (Timeout_patient f) = 3"
| "event_weight cfg gap t Release = 1"
| "event_weight cfg gap t Process_end = 1"
| "event_weight cfg gap t Until = 1"

definition steps_left :: "config \<Rightarrow> rat \<Rightarrow> sim \<Rightarrow> nat" where
  "steps_left cfg gap s =
     sum_list (map (\<lambda>x. event_weight cfg gap (fst (fst x)) (snd x)) (queue s))
     + 4 * length (put_queue s)"

section \<open>Basic facts about the schedule\<close>

lemma pending_simps [simp]:
  "pending [] = {#}"
  "pending ((k, ev) # q) = add_mset ev (pending q)"
  "pending (insort_key fst (k, ev) q) = add_mset ev (pending q)"
  by (simp_all add: pending_def)

lemma schedule_fields [simp]:
  "queue (schedule ev p d s) = insort_key fst ((now s + d, p, eid s), ev) (queue s)"
  "users (schedule ev p d s) = users s"
  "put_queue (schedule ev p d s) = put_queue s"
  "occupied_beds (schedule ev p d s) = occupied_beds s"
  "occupancy (schedule ev p d s) = occupancy s"
  "times_log (schedule ev p d s) = times_log s"
  "patients (schedule ev p d s) = patients s"
  "capacity (schedule ev p d s) = capacity s"
  "num_beds (schedule ev p d s) = num_beds s"
  "now (schedule ev p d s) = now s"
  "draws (schedule ev p d s) = draws s"
  "eid (schedule ev p d s) = eid s + 1"
  by (simp_all add: schedule_def)

lemma record_occupancy_fields [simp]:
  "now (record_occupancy s) = now s"
  "queue (record_occupancy s) = queue s"
  "eid (record_occupancy s) = eid s"
  "users (record_occupancy s) = users s"
  "put_queue (record_occupancy s) = put_queue s"
  "occupied_beds (record_occupancy s) = occupied_beds s"
  "patients (record_occupancy s) = patients s"
  "capacity (record_occupancy s) = capacity s"
  "num_beds (record_occupancy s) = num_beds s"
  "draws (record_occupancy s) = draws s"
  "occupancy (record_occupancy s) = occupancy s @ [occupied_beds s]"
  "times_log (record_occupancy s) = times_log s @ [now s]"
  by (simp_all add: record_occupancy_def)

text \<open>Only the \<open>Until\<close> event stops the run.\<close>

lemma timeout_not_Stopped [simp]: "timeout ev d s \<noteq> Stopped s'"
  by (simp add: timeout_def)

lemma monitor_occupancy_not_Stopped [simp]: "monitor_occupancy s \<noteq> Stopped s'"
  by (simp add: monitor_occupancy_def)

lemma occupy_bed_not_Stopped [simp]: "occupy_bed f s \<noteq> Stopped s'"
  by (simp add: occupy_bed_def)

lemma patient_generator_not_Stopped [simp]: "patient_generator cfg rng pid s \<noteq> Stopped s'"
  by (simp add: patient_generator_def Let_def split: sum.splits prod.splits)

lemma spawn_patient_not_Stopped [simp]: "spawn_patient cfg rng pid s \<noteq> Stopped s'"
  by (simp add: spawn_patient_def Let_def split: sum.splits prod.splits)

lemma admit_patient_not_Stopped [simp]: "admit_patient cfg rng pid ptype los s \<noteq> Stopped s'"
  by (simp add: admit_patient_def Let_def split: sum.splits prod.splits)

lemma step_Stopped:
  assumes "step cfg rng s = Stopped s'"
  shows "\<exists>k q. queue s = (k, Until) # q \<and> s' = s\<lparr>now := fst k, queue := q\<rparr>"
proof (cases "queue s")
  case Nil
  then show ?thesis using assms by (simp add: step_def)
next
  case (Cons a q)
  obtain t p i ev where a: "a = ((t, p, i), ev)" by (cases a) auto
  show ?thesis using assms Cons a by (cases ev) (simp_all add: step_def Let_def)
qed

text \<open>An invariant of the steps holds in every state a run reaches.\<close>

lemma env_run_invariant:
  assumes "\<And>s s'. P s \<Longrightarrow> step cfg rng s = Running s' \<or> step cfg rng s = Stopped s' \<Longrightarrow> P s'"
    and "P s0"
    and "env_run cfg rng n s0 = Running s \<or> env_run cfg rng n s0 = Stopped s"
  shows "P s"
  using assms(2,3)
proof (induction n arbitrary: s0)
  case 0
  then show ?case by simp
next
  case (Suc n)
  show ?case
  proof (cases "step cfg rng s0")
    case (Running s1)
    then have "P s1" using assms(1) Suc.prems(1) by blast
    moreover have "env_run cfg rng n s1 = Running s \<or> env_run cfg rng n s1 = Stopped s"
      using Suc.prems(2) Running by simp
    ultimately show ?thesis by (rule Suc.IH)
  next
    case (Stopped s1)
    then have "s1 = s" using Suc.prems(2) by simp
    then show ?thesis using assms(1) Suc.prems(1) Stopped by blast
  next
    case (Raised e)
    then show ?thesis using Suc.prems(2) by simp
  qed
qed

text \<open>The result of a run does not depend on the fuel.\<close>

lemma env_run_Stopped_unique:
  "env_run cfg rng n s = Stopped a \<Longrightarrow> env_run cfg rng m s = Stopped b \<Longrightarrow> a = b"
proof (induction n arbitrary: m s)
  case 0
  then show ?case by simp
next
  case (Suc n)
  show ?case
  proof (cases m)
    case 0
    then show ?thesis using Suc.prems by simp
  next
    case (Suc m')
    show ?thesis
    proof (cases "step cfg rng s")
      case (Running s1)
      then show ?thesis using Suc.prems Suc.IH [of s1 m'] \<open>m = Suc m'\<close> by simp
    next
      case (Stopped s1)
      then show ?thesis using Suc.prems \<open>m = Suc m'\<close> by simp
    next
      case (Raised e)
      then show ?thesis using Suc.prems by simp
    qed
  qed
qed

section \<open>The bed count stays within the capacity\<close>

lemma staying_le_holders: "size (filter_mset staying M) \<le> size (\<Sum>ev \<in># M. holder ev)"
proof (induction M)
  case empty
  then show ?case by simp
next
  case (add ev M)
  then show ?case by (cases ev) auto
qed

lemma occupied_le_capacity:
  assumes "bed_invariant cfg s"
  shows "0 \<le> occupied_beds s" and "occupied_beds s \<le> capacity s"
proof -
  have "size (filter_mset staying (pending (queue s))) \<le> size (mset (users s))"
    using assms staying_le_holders [of "pending (queue s)"] by (simp add: bed_invariant_def)
  then show "occupied_beds s \<le> capacity s" using assms by (simp add: bed_invariant_def)
  show "0 \<le> occupied_beds s" using assms by (simp add: bed_invariant_def)
qed

lemma bed_invariant_step:
  assumes "bed_invariant cfg s"
    and "step cfg rng s = Running s' \<or> step cfg rng s = Stopped s'"
  shows "bed_invariant cfg s'"
proof (cases "queue s")
  case Nil
  then show ?thesis using assms by (simp add: step_def)
next
  case (Cons a q)
  obtain t p i ev where a: "a = ((t, p, i), ev)" by (cases a) auto
  note occ = occupied_le_capacity [OF assms(1)]
  show ?thesis
  proof (cases ev)
    case Initialize_monitor
    then show ?thesis using assms Cons a occ
      by (auto simp: step_def bed_invariant_def monitor_occupancy_def timeout_def
          record_occupancy_def)
  next
    case Timeout_monitor
    then show ?thesis using assms Cons a occ
      by (auto simp: step_def bed_invariant_def monitor_occupancy_def timeout_def
          record_occupancy_def)
  next
    case Initialize_generator
    then show ?thesis using assms Cons a
      by (auto simp: step_def bed_invariant_def patient_generator_def timeout_def
          process_end_def exponential_def Let_def split: if_splits sum.splits prod.splits)
  next
    case (Timeout_generator pid)
    then show ?thesis using assms Cons a
      by (auto simp: step_def bed_invariant_def spawn_patient_def patient_generator_def
          timeout_def process_end_def exponential_def choice_def Let_def
          split: if_splits sum.splits prod.splits)
  next
    case (Initialize_patient pid ptype los)
    then show ?thesis using assms Cons a
      by (auto simp: step_def bed_invariant_def admit_patient_def rand_def exponential_def
          request_def trigger_put_def Let_def
          split: if_splits sum.splits prod.splits list.splits)
  next
    case (Request f)
    have "size (filter_mset staying (pending q)) + 1 \<le> size (mset (users s))"
      using assms(1) Cons a Request staying_le_holders [of "pending q"]
      by (simp add: bed_invariant_def)
    then have "int (size (filter_mset staying (pending q))) + 1 \<le> capacity s"
      using assms(1) by (simp add: bed_invariant_def)
    then show ?thesis using assms Cons a Request
      by (auto simp: step_def bed_invariant_def occupy_bed_def timeout_def
          record_occupancy_def Let_def split: if_splits)
  next
    case (Timeout_patient f)
    have "int (length (remove1 (patient_id f) (users s))) \<le> int (length (users s))"
      by (simp add: length_remove1)
    then show ?thesis using assms Cons a occ Timeout_patient
      by (auto simp: step_def bed_invariant_def discharge_def release_def process_end_def
          record_occupancy_def Let_def)
  next
    case Release
    then show ?thesis using assms Cons a
      by (auto simp: step_def bed_invariant_def trigger_put_def Let_def
          split: list.splits if_splits)
  next
    case Process_end
    then show ?thesis using assms Cons a by (auto simp: step_def bed_invariant_def Let_def)
  next
    case Until
    then show ?thesis using assms Cons a by (auto simp: step_def bed_invariant_def Let_def)
  qed
qed

lemma bed_invariant_start:
  assumes "start cfg d = Inr s"
  shows "bed_invariant cfg s"
  using assms
  by (auto simp: start_def hospital_init_def bed_invariant_def Let_def split: if_splits)

lemma bed_invariant_run:
  assumes "run_simulation cfg rng d n = Running s \<or> run_simulation cfg rng d n = Stopped s"
  shows "bed_invariant cfg s"
proof (cases "start cfg d")
  case (Inl e)
  then show ?thesis using assms by (simp add: run_simulation_def)
next
  case (Inr s0)
  have "env_run cfg rng n s0 = Running s \<or> env_run cfg rng n s0 = Stopped s"
    using assms Inr by (simp add: run_simulation_def)
  with bed_invariant_step bed_invariant_start [OF Inr] show ?thesis
    by (rule env_run_invariant [where P = "bed_invariant cfg"])
qed

lemmas simulation_defs =
  run_simulation_def start_def hospital_init_def schedule_def URGENT_def NORMAL_def
  step_def monitor_occupancy_def timeout_def record_occupancy_def patient_generator_def
  patient_types_def exponential_def spawn_patient_def choice_def admit_patient_def rand_def
  request_def trigger_put_def process_end_def request_priority_def occupy_bed_def
  request_key_def discharge_def release_def state_of_def Let_def

text \<open>
  C1. In every state a run reaches, after any number of steps or when it has stopped, the
  bed count is between 0 and the capacity of normal plus extra beds, where the extra beds
  are the floor division of the normal beds by the ratio; and so is every occupancy
  sample recorded so far.
\<close>

theorem occupied_beds_within_capacity:
  assumes "run_simulation cfg rng d n = Running s \<or> run_simulation cfg rng d n = Stopped s"
  shows "0 \<le> occupied_beds s
    \<and> occupied_beds s \<le> NUM_BEDS cfg + NUM_BEDS cfg div EXTRA_BED_RATIO cfg
    \<and> (\<forall>k \<in> set (occupancy s).
          0 \<le> k \<and> k \<le> NUM_BEDS cfg + NUM_BEDS cfg div EXTRA_BED_RATIO cfg)"
proof -
  have inv: "bed_invariant cfg s" using assms by (rule bed_invariant_run)
  then have "capacity s = NUM_BEDS cfg + NUM_BEDS cfg div EXTRA_BED_RATIO cfg"
    by (simp add: bed_invariant_def)
  then show ?thesis using inv occupied_le_capacity [OF inv] by (simp add: bed_invariant_def)
qed

theorem occupied_beds_within_capacity_witness:
  "\<exists>s. run_simulation boarding_config steady_random 0 12 = Stopped s
     \<and> 0 \<le> occupied_beds s \<and> occupied_beds s \<le> 2 \<and> set (occupancy s) \<subseteq> {0..2}"
proof -
  obtain s where s: "run_simulation boarding_config steady_random 0 12 = Stopped s"
    by (simp add: simulation_defs boarding_config_def no_boarding_config_def steady_random_def
        eval_nat_numeral)
  have "NUM_BEDS boarding_config + NUM_BEDS boarding_config div EXTRA_BED_RATIO boarding_config = 2"
    by (simp add: boarding_config_def no_boarding_config_def)
  then show ?thesis
    using s occupied_beds_within_capacity [of boarding_config steady_random 0 12 s] by auto
qed

text \<open>
  C2, at the failing input. One normal bed, ratio 1, boarding disabled: the resource is
  still built with capacity 2, the second arrival is granted the second slot, and after
  ten steps the bed count is 2, above the single normal bed.
\<close>

theorem no_boarding_exceeds_base_capacity:
  "\<not> ENABLE_BED_BOARDING no_boarding_config \<and> NUM_BEDS no_boarding_config = 1
   \<and> map_option occupied_beds (state_of (run_simulation no_boarding_config steady_random 0 10))
       = Some 2"
  by (simp add: simulation_defs no_boarding_config_def steady_random_def eval_nat_numeral)

text \<open>
  C3, at the failing input. With boarding disabled and the normal bed taken, the second
  patient asks with priority 2 at time 2; the request is granted inside the call (it is
  scheduled first in the queue, with \<open>usage_since\<close> the time of the request, and nothing
  waits), and the next step admits the patient at that same time, with no release in
  between: nobody has been discharged.
\<close>

theorem tier_two_request_granted_at_once:
  "map_option (\<lambda>s. (now s, occupied_beds s, map snd (take 1 (queue s)), put_queue s, users s))
     (state_of (run_simulation no_boarding_config steady_random 0 9))
     = Some (2, 1,
         [Request \<lparr>patient_id = 1, p_type = Medical, length_of_stay = 10, arrival_time = 2,
            has_nmcr_delay = False, reason = None, total_length_of_stay = 10, priority = 2,
            request_time = 2, usage_since = Some 2\<rparr>], [], [0, 1])
   \<and> map_option (\<lambda>s. (now s, occupied_beds s, patients s))
       (state_of (run_simulation no_boarding_config steady_random 0 10)) = Some (2, 2, [])"
  by (simp add: simulation_defs no_boarding_config_def steady_random_def eval_nat_numeral)

section \<open>Determinism\<close>




section \<open>A zero total arrival rate\<close>

lemma idle_start:
  assumes "sum_list (map (ARRIVAL_RATES cfg) patient_types) = 0"
    and "0 < SIMULATION_TIME cfg" and "EXTRA_BED_RATIO cfg \<noteq> 0"
    and "0 < NUM_BEDS cfg + NUM_BEDS cfg div EXTRA_BED_RATIO cfg"
  shows "run_simulation cfg rng d (3 + m) = env_run cfg rng m (idle_state cfg d 1)"
proof -
  have H: "(0::rat) < of_int (SIMULATION_TIME cfg)" "(1::rat) \<le> of_int (SIMULATION_TIME cfg)"
    using assms(2) by simp_all
  have fuel: "3 + m = Suc (Suc (Suc m))" by simp
  show ?thesis
    unfolding fuel using assms H
    by (simp add: run_simulation_def start_def hospital_init_def schedule_def URGENT_def NORMAL_def
        step_def monitor_occupancy_def timeout_def record_occupancy_def patient_generator_def
        process_end_def idle_state_def Let_def eval_nat_numeral)
qed

lemma idle_tick:
  assumes "1 \<le> k" and "int k < SIMULATION_TIME cfg"
  shows "step cfg rng (idle_state cfg d k) = Running (idle_state cfg d (Suc k))"
proof -
  have "(of_nat k :: rat) < of_int (SIMULATION_TIME cfg)"
    using assms(2) by (metis of_int_less_iff of_int_of_nat_eq)
  moreover have "(of_nat k :: rat) + 1 \<le> of_int (SIMULATION_TIME cfg)"
    using assms(2) by (metis of_int_le_iff of_int_of_nat_eq of_nat_Suc Suc_leI of_nat_less_iff
        of_nat_le_iff zless_imp_add1_zle of_int_1 of_int_add add.commute)
  ultimately show ?thesis
    using assms(1)
    by (simp add: idle_state_def step_def monitor_occupancy_def timeout_def
        record_occupancy_def schedule_def NORMAL_def URGENT_def Let_def
        replicate_append_same add.commute)
qed

lemma idle_stop:
  assumes "1 \<le> k" and "int k = SIMULATION_TIME cfg"
  shows "\<exists>s. step cfg rng (idle_state cfg d k) = Stopped s \<and> now s = of_int (SIMULATION_TIME cfg)
    \<and> times_log s = map of_nat [0..<k] \<and> occupancy s = replicate k 0 \<and> patients s = []
    \<and> draws s = d"
proof -
  have "(of_nat k :: rat) = of_int (SIMULATION_TIME cfg)"
    using assms(2) by (metis of_int_of_nat_eq)
  then show ?thesis
    by (simp add: idle_state_def step_def NORMAL_def URGENT_def Let_def)
qed

lemma idle_run:
  assumes "1 \<le> k" and "int k + int j = SIMULATION_TIME cfg"
  shows "\<exists>s. env_run cfg rng (Suc j) (idle_state cfg d k) = Stopped s
    \<and> now s = of_int (SIMULATION_TIME cfg)
    \<and> times_log s = map of_nat [0..<k + j] \<and> occupancy s = replicate (k + j) 0
    \<and> patients s = [] \<and> draws s = d"
  using assms
proof (induction j arbitrary: k)
  case 0
  then show ?case using idle_stop [of k cfg rng d] by auto
next
  case (Suc j)
  have "step cfg rng (idle_state cfg d k) = Running (idle_state cfg d (Suc k))"
    using Suc.prems by (intro idle_tick) auto
  moreover have "\<exists>s. env_run cfg rng (Suc j) (idle_state cfg d (Suc k)) = Stopped s
    \<and> now s = of_int (SIMULATION_TIME cfg)
    \<and> times_log s = map of_nat [0..<Suc k + j] \<and> occupancy s = replicate (Suc k + j) 0
    \<and> patients s = [] \<and> draws s = d"
    using Suc.prems by (intro Suc.IH) auto
  ultimately show ?case by simp
qed

text \<open>
  C7, the claim at an explicit input. Both arrival rates are zero and the run is not
  refused: it is started, takes its six steps and returns the three periodic samples and an
  empty log.
\<close>

theorem zero_rate_run_not_rejected:
  "sum_list (map (ARRIVAL_RATES zero_rate_config) patient_types) = 0
   \<and> (case run_simulation zero_rate_config steady_random 0 6 of
        Stopped s \<Rightarrow> Some (returned s) | Running s \<Rightarrow> None | Raised e \<Rightarrow> None)
       = Some ([0, 1, 2], [0, 0, 0], [])"
  by (simp add: simulation_defs returned_def zero_rate_config_def no_boarding_config_def
      steady_random_def eval_nat_numeral)

text \<open>
  C7 as amended. A configuration whose total arrival rate is zero (with a horizon, a ratio
  and a number of beds that the constructors accept) is run: the arrival generator returns
  at its first check without drawing a variate or starting a patient, and the run stops at
  the horizon, after its steps for the horizon and three more, with one sample of 0 for
  every time unit \<open>0, 1, \<dots>\<close> below the horizon and an empty patient log. The only
  refusal is the calculator page's, which stops on a zero total rate.
\<close>

theorem zero_rate_run_completes:
  assumes "sum_list (map (ARRIVAL_RATES cfg) patient_types) = 0"
    and "0 < SIMULATION_TIME cfg" and "EXTRA_BED_RATIO cfg \<noteq> 0"
    and "0 < NUM_BEDS cfg + NUM_BEDS cfg div EXTRA_BED_RATIO cfg"
  shows "(\<exists>s. run_simulation cfg rng d (nat (SIMULATION_TIME cfg) + 3) = Stopped s
      \<and> now s = of_int (SIMULATION_TIME cfg)
      \<and> times_log s = map of_nat [0..<nat (SIMULATION_TIME cfg)]
      \<and> occupancy s = replicate (nat (SIMULATION_TIME cfg)) 0
      \<and> patients s = [] \<and> draws s = d)
    \<and> (total_arrival_rate c = 0 \<longrightarrow> occupancy_and_los c = Page_stopped)"
proof -
  obtain j where j: "nat (SIMULATION_TIME cfg) = Suc j"
    using assms(2) by (metis nat_0_iff not0_implies_Suc not_less)
  then have "int 1 + int j = SIMULATION_TIME cfg"
    using assms(2) by linarith
  then have "\<exists>s. env_run cfg rng (Suc j) (idle_state cfg d 1) = Stopped s
    \<and> now s = of_int (SIMULATION_TIME cfg)
    \<and> times_log s = map of_nat [0..<1 + j] \<and> occupancy s = replicate (1 + j) 0
    \<and> patients s = [] \<and> draws s = d"
    by (intro idle_run) auto
  moreover have "run_simulation cfg rng d (nat (SIMULATION_TIME cfg) + 3)
      = env_run cfg rng (Suc j) (idle_state cfg d 1)"
    using idle_start [OF assms, of rng d "Suc j"] j by (simp add: add.commute)
  ultimately show ?thesis using j by (simp add: occupancy_and_los_def)
qed

theorem zero_rate_run_completes_witness:
  "(\<exists>s. run_simulation zero_rate_config steady_random 7 6 = Stopped s
     \<and> times_log s = [0, 1, 2] \<and> occupancy s = [0, 0, 0] \<and> patients s = [] \<and> draws s = 7)
   \<and> total_arrival_rate (default_page\<lparr>page_ARRIVAL_RATES := (\<lambda>p. 0)\<rparr>) = 0
   \<and> occupancy_and_los (default_page\<lparr>page_ARRIVAL_RATES := (\<lambda>p. 0)\<rparr>) = Page_stopped"
proof -
  have 1: "sum_list (map (ARRIVAL_RATES zero_rate_config) patient_types) = 0"
    by (simp add: zero_rate_config_def patient_types_def)
  have 2: "0 < SIMULATION_TIME zero_rate_config"
    and 3: "EXTRA_BED_RATIO zero_rate_config \<noteq> 0"
    and 4: "0 < NUM_BEDS zero_rate_config
              + NUM_BEDS zero_rate_config div EXTRA_BED_RATIO zero_rate_config"
    by (simp_all add: zero_rate_config_def no_boarding_config_def)
  have 5: "nat (SIMULATION_TIME zero_rate_config) = 3"
    by (simp add: zero_rate_config_def no_boarding_config_def)
  have 6: "total_arrival_rate (default_page\<lparr>page_ARRIVAL_RATES := (\<lambda>p. 0)\<rparr>) = 0"
    by (simp add: total_arrival_rate_def default_page_def patient_types_def)
  show ?thesis
    using zero_rate_run_completes [OF 1 2 3 4, of steady_random 7
        "default_page\<lparr>page_ARRIVAL_RATES := (\<lambda>p. 0)\<rparr>"] 5 6
    by (auto simp: eval_nat_numeral upt_rec)
qed

section \<open>The discharge time of a logged patient\<close>

lemma clock_invariant_pop:
  assumes "clock_invariant s" and "queue s = ((t, p, i), ev) # q"
  shows "clock_invariant (s\<lparr>now := t, queue := q\<rparr>)" and "event_timing t ev" and "now s \<le> t"
proof -
  have sorted: "sorted (map fst q)" and least: "\<forall>x \<in> set q. (t, p, i) \<le> fst x"
    using assms by (auto simp: clock_invariant_def)
  have "\<forall>x \<in> set q. t \<le> fst (fst x)"
  proof
    fix x assume "x \<in> set q"
    then have "(t, p, i) \<le> fst x" using least by blast
    then show "t \<le> fst (fst x)" by (cases x) (auto simp: less_eq_prod_def)
  qed
  moreover show "now s \<le> t" and "event_timing t ev"
    using assms by (auto simp: clock_invariant_def)
  ultimately show "clock_invariant (s\<lparr>now := t, queue := q\<rparr>)"
    using assms sorted by (auto simp: clock_invariant_def)
qed

lemma clock_invariant_schedule:
  assumes "clock_invariant s" and "0 \<le> d" and "event_timing (now s + d) ev"
  shows "clock_invariant (schedule ev p d s)"
  using assms
  by (auto simp: clock_invariant_def schedule_def sorted_insort_key set_insort_key)

lemma clock_invariant_updates [simp]:
  "clock_invariant (s\<lparr>occupied_beds := b\<rparr>) = clock_invariant s"
  "clock_invariant (s\<lparr>users := u\<rparr>) = clock_invariant s"
  "clock_invariant (s\<lparr>draws := n\<rparr>) = clock_invariant s"
  "clock_invariant (record_occupancy s) = clock_invariant s"
  by (simp_all add: clock_invariant_def record_occupancy_def)

lemma clock_invariant_trigger_put:
  assumes "clock_invariant s"
  shows "clock_invariant (trigger_put s)"
proof (cases "put_queue s")
  case Nil
  then show ?thesis using assms by (simp add: trigger_put_def)
next
  case (Cons f waiting)
  show ?thesis
  proof (cases "int (length (users s)) < capacity s")
    case True
    have "clock_invariant (s\<lparr>users := users s @ [patient_id f], put_queue := waiting\<rparr>)"
      using assms Cons by (simp add: clock_invariant_def)
    moreover have "event_timing (now s + 0) (Request (f\<lparr>usage_since := Some (now s)\<rparr>))"
      using assms Cons by (simp add: clock_invariant_def)
    ultimately show ?thesis
      using Cons True by (simp add: trigger_put_def clock_invariant_schedule)
  next
    case False
    then show ?thesis using assms Cons by (simp add: trigger_put_def)
  qed
qed

lemma clock_invariant_request:
  assumes "clock_invariant s" and "request_time f = arrival_time f" and "arrival_time f = now s"
  shows "clock_invariant (request f s)"
proof -
  have "clock_invariant (s\<lparr>put_queue := sort_key request_key (put_queue s @ [f])\<rparr>)"
    using assms by (simp add: clock_invariant_def)
  then show ?thesis unfolding request_def by (rule clock_invariant_trigger_put)
qed

lemma clock_invariant_log:
  "clock_invariant (s\<lparr>patients := patients s @ [r]\<rparr>)
     \<longleftrightarrow> clock_invariant s \<and> Total_LOS r \<le> Discharge_Time r - Arrival_Time r"
  by (auto simp: clock_invariant_def)

lemma clock_invariant_discharge:
  assumes "clock_invariant s" and "event_timing (now s) (Timeout_patient f)"
  shows "clock_invariant (discharge f s)"
proof -
  define s2 where "s2 = release f (record_occupancy (s\<lparr>occupied_beds := occupied_beds s - 1\<rparr>))"
  have s2: "clock_invariant s2" and now: "now s2 = now s"
    using assms(1) by (simp_all add: s2_def release_def clock_invariant_schedule)
  have "total_length_of_stay f \<le> now s - arrival_time f"
    using assms(2) by (auto split: option.splits)
  then show ?thesis
    using s2 now
    by (simp add: discharge_def s2_def [symmetric] process_end_def clock_invariant_schedule
        clock_invariant_log)
qed

lemma clock_invariant_patient_generator:
  assumes "clock_invariant s" and "patient_generator cfg rng pid s = Running s'"
  shows "clock_invariant s'"
  using assms
  by (auto simp: patient_generator_def process_end_def timeout_def exponential_def Let_def
      clock_invariant_schedule split: if_splits)

lemma clock_invariant_step:
  assumes "clock_invariant s"
    and "step cfg rng s = Running s' \<or> step cfg rng s = Stopped s'"
  shows "clock_invariant s'"
proof (cases "queue s")
  case Nil
  then show ?thesis using assms by (simp add: step_def)
next
  case (Cons a q)
  obtain t p i ev where a: "a = ((t, p, i), ev)" by (cases a) auto
  define s1 where "s1 = s\<lparr>now := t, queue := q\<rparr>"
  have s1: "clock_invariant s1" and ev: "event_timing t ev"
    using clock_invariant_pop [OF assms(1)] Cons a by (simp_all add: s1_def)
  have t: "now s1 = t" by (simp add: s1_def)
  show ?thesis
  proof (cases ev)
    case Initialize_monitor
    then show ?thesis using assms(2) Cons a s1
      by (auto simp: step_def s1_def [symmetric] monitor_occupancy_def timeout_def
          clock_invariant_schedule)
  next
    case Timeout_monitor
    then show ?thesis using assms(2) Cons a s1
      by (auto simp: step_def s1_def [symmetric] monitor_occupancy_def timeout_def
          clock_invariant_schedule)
  next
    case Initialize_generator
    then show ?thesis using assms(2) Cons a s1
      by (auto simp: step_def s1_def [symmetric] dest: clock_invariant_patient_generator)
  next
    case (Timeout_generator pid)
    then show ?thesis using assms(2) Cons a s1
      by (auto simp: step_def s1_def [symmetric] spawn_patient_def choice_def exponential_def
          Let_def clock_invariant_schedule
          split: if_splits dest!: clock_invariant_patient_generator [rotated])
  next
    case (Initialize_patient pid ptype los)
    then show ?thesis using assms(2) Cons a s1 t
      by (auto simp: step_def s1_def [symmetric] admit_patient_def rand_def exponential_def
          Let_def split: if_splits intro!: clock_invariant_request)
  next
    case (Request f)
    then show ?thesis using assms(2) Cons a s1 ev t
      by (auto simp: step_def s1_def [symmetric] occupy_bed_def timeout_def
          split: if_splits intro!: clock_invariant_schedule)
  next
    case (Timeout_patient f)
    then show ?thesis using assms(2) Cons a s1 ev t
      by (auto simp: step_def s1_def [symmetric] intro!: clock_invariant_discharge)
  next
    case Release
    then show ?thesis using assms(2) Cons a s1
      by (auto simp: step_def s1_def [symmetric] clock_invariant_trigger_put)
  next
    case Process_end
    then show ?thesis using assms(2) Cons a s1 by (auto simp: step_def s1_def [symmetric])
  next
    case Until
    then show ?thesis using assms(2) Cons a s1 by (auto simp: step_def s1_def [symmetric])
  qed
qed

lemma clock_invariant_start:
  assumes "start cfg d = Inr s"
  shows "clock_invariant s"
  using assms
  by (auto simp: start_def hospital_init_def clock_invariant_def schedule_def Let_def
      sorted_insort_key set_insort_key split: if_splits)

lemma clock_invariant_run:
  assumes "run_simulation cfg rng d n = Running s \<or> run_simulation cfg rng d n = Stopped s"
  shows "clock_invariant s"
proof (cases "start cfg d")
  case (Inl e)
  then show ?thesis using assms by (simp add: run_simulation_def)
next
  case (Inr s0)
  have "env_run cfg rng n s0 = Running s \<or> env_run cfg rng n s0 = Stopped s"
    using assms Inr by (simp add: run_simulation_def)
  with clock_invariant_step clock_invariant_start [OF Inr] show ?thesis
    by (rule env_run_invariant [where P = clock_invariant])
qed

text \<open>A step that changes the log processes the timeout of a stay and appends its record.\<close>

lemma step_appends_record:
  assumes "step cfg rng s = Running s'" and "patients s' \<noteq> patients s"
  shows "\<exists>k f q. queue s = (k, Timeout_patient f) # q
    \<and> patients s' = patients s @
        [\<lparr>Patient_ID = patient_id f, Type = p_type f, Arrival_Time = arrival_time f,
          Length_of_Stay = length_of_stay f,
          NMCR_Delay = (if has_nmcr_delay f then total_length_of_stay f - length_of_stay f else 0),
          Total_LOS = total_length_of_stay f, Discharge_Time = fst k,
          NMCR_Reason = (if has_nmcr_delay f then reason f else None)\<rparr>]"
proof (cases "queue s")
  case Nil
  then show ?thesis using assms by (simp add: step_def)
next
  case (Cons a q)
  obtain t p i ev where a: "a = ((t, p, i), ev)" by (cases a) auto
  show ?thesis
  proof (cases ev)
    case (Timeout_patient f)
    then show ?thesis using assms Cons a
      by (auto simp: step_def discharge_def process_end_def release_def record_occupancy_def
          Let_def)
  qed (use assms Cons a in \<open>auto simp: step_def monitor_occupancy_def timeout_def
      record_occupancy_def patient_generator_def process_end_def exponential_def
      spawn_patient_def choice_def admit_patient_def rand_def request_def trigger_put_def
      occupy_bed_def Let_def split: if_splits list.splits\<close>)
qed



section \<open>The NMCR outcome is fixed on arrival\<close>

lemma nmcr_frame_usage_since [simp]:
  "nmcr_frame cfg rng (f\<lparr>usage_since := a\<rparr>) = nmcr_frame cfg rng f"
  by (simp add: nmcr_frame_def)

lemma nmcr_invariant_schedule:
  assumes "nmcr_invariant cfg rng s" and "event_nmcr cfg rng ev"
  shows "nmcr_invariant cfg rng (schedule ev p d s)"
  using assms by (auto simp: nmcr_invariant_def schedule_def set_insort_key)

lemma nmcr_invariant_updates [simp]:
  "nmcr_invariant cfg rng (s\<lparr>occupied_beds := b\<rparr>) = nmcr_invariant cfg rng s"
  "nmcr_invariant cfg rng (s\<lparr>users := u\<rparr>) = nmcr_invariant cfg rng s"
  "nmcr_invariant cfg rng (s\<lparr>draws := n\<rparr>) = nmcr_invariant cfg rng s"
  "nmcr_invariant cfg rng (s\<lparr>now := t\<rparr>) = nmcr_invariant cfg rng s"
  "nmcr_invariant cfg rng (record_occupancy s) = nmcr_invariant cfg rng s"
  by (simp_all add: nmcr_invariant_def record_occupancy_def)

lemma nmcr_invariant_trigger_put:
  assumes "nmcr_invariant cfg rng s"
  shows "nmcr_invariant cfg rng (trigger_put s)"
proof (cases "put_queue s")
  case Nil
  then show ?thesis using assms by (simp add: trigger_put_def)
next
  case (Cons f waiting)
  have "nmcr_invariant cfg rng (s\<lparr>users := users s @ [patient_id f], put_queue := waiting\<rparr>)"
    and "event_nmcr cfg rng (Request (f\<lparr>usage_since := Some (now s)\<rparr>))"
    using assms Cons by (simp_all add: nmcr_invariant_def)
  then show ?thesis
    using assms Cons by (simp add: trigger_put_def nmcr_invariant_schedule)
qed

lemma nmcr_invariant_request:
  assumes "nmcr_invariant cfg rng s" and "nmcr_frame cfg rng f"
  shows "nmcr_invariant cfg rng (request f s)"
proof -
  have "nmcr_invariant cfg rng (s\<lparr>put_queue := sort_key request_key (put_queue s @ [f])\<rparr>)"
    using assms by (simp add: nmcr_invariant_def)
  then show ?thesis unfolding request_def by (rule nmcr_invariant_trigger_put)
qed

lemma nmcr_invariant_patient_generator:
  assumes "nmcr_invariant cfg rng s" and "patient_generator cfg rng pid s = Running s'"
  shows "nmcr_invariant cfg rng s'"
  using assms
  by (auto simp: patient_generator_def process_end_def timeout_def exponential_def Let_def
      nmcr_invariant_schedule split: if_splits)

lemma nmcr_invariant_discharge:
  assumes "nmcr_invariant cfg rng s" and "nmcr_frame cfg rng f"
  shows "nmcr_invariant cfg rng (discharge f s)"
proof -
  define s2 where "s2 = release f (record_occupancy (s\<lparr>occupied_beds := occupied_beds s - 1\<rparr>))"
  define r where "r = \<lparr>Patient_ID = patient_id f, Type = p_type f, Arrival_Time = arrival_time f,
      Length_of_Stay = length_of_stay f,
      NMCR_Delay = (if has_nmcr_delay f then total_length_of_stay f - length_of_stay f else 0),
      Total_LOS = total_length_of_stay f, Discharge_Time = now s2,
      NMCR_Reason = (if has_nmcr_delay f then reason f else None)\<rparr>"
  have s2: "nmcr_invariant cfg rng s2"
    using assms(1) by (simp add: s2_def release_def nmcr_invariant_schedule)
  obtain i where i: "(reason f, total_length_of_stay f - length_of_stay f) = nmcr_outcome cfg rng i"
    and has: "has_nmcr_delay f = (reason f \<noteq> None)"
    using assms(2) by (auto simp: nmcr_frame_def)
  have "(NMCR_Reason r, NMCR_Delay r) = nmcr_outcome cfg rng i"
    using i has by (auto simp: r_def nmcr_outcome_def split: if_splits)
  moreover have "Total_LOS r = Length_of_Stay r + NMCR_Delay r"
    using i has by (auto simp: r_def nmcr_outcome_def split: if_splits)
  ultimately have "nmcr_record cfg rng r" by (auto simp: nmcr_record_def)
  then have "nmcr_invariant cfg rng (s2\<lparr>patients := patients s2 @ [r]\<rparr>)"
    using s2 by (simp add: nmcr_invariant_def)
  then show ?thesis
    by (simp add: discharge_def s2_def [symmetric] r_def [symmetric] process_end_def
        nmcr_invariant_schedule)
qed

text \<open>What the step of an arriving patient does: the draws, then the request.\<close>

lemma admit_patient_Running:
  assumes "admit_patient cfg rng pid ptype los s = Running s'"
  shows "\<exists>f. s' = request f (s\<lparr>draws := draws s + nmcr_calls cfg rng (draws s)\<rparr>)
    \<and> patient_id f = pid \<and> p_type f = ptype \<and> length_of_stay f = los
    \<and> arrival_time f = now s \<and> request_time f = now s \<and> usage_since f = None
    \<and> priority f = request_priority cfg s
    \<and> (reason f, total_length_of_stay f - los) = nmcr_outcome cfg rng (draws s)
    \<and> has_nmcr_delay f = (reason f \<noteq> None)"
proof (cases "uniform_draw rng (draws s) < of_int (NMCR_PROPORTION cfg) / 100")
  case True
  then show ?thesis using assms
    by (auto simp: admit_patient_def rand_def exponential_def Let_def nmcr_outcome_def
        nmcr_calls_def request_priority_def eval_nat_numeral split: if_splits)
next
  case False
  then show ?thesis using assms
    by (auto simp: admit_patient_def rand_def Let_def nmcr_outcome_def nmcr_calls_def
        request_priority_def)
qed

lemma nmcr_invariant_step:
  assumes "nmcr_invariant cfg rng s"
    and "step cfg rng s = Running s' \<or> step cfg rng s = Stopped s'"
  shows "nmcr_invariant cfg rng s'"
proof (cases "queue s")
  case Nil
  then show ?thesis using assms by (simp add: step_def)
next
  case (Cons a q)
  obtain t p i ev where a: "a = ((t, p, i), ev)" by (cases a) auto
  define s1 where "s1 = s\<lparr>now := t, queue := q\<rparr>"
  have s1: "nmcr_invariant cfg rng s1" and ev: "event_nmcr cfg rng ev"
    using assms(1) Cons a by (simp_all add: s1_def nmcr_invariant_def)
  show ?thesis
  proof (cases ev)
    case Initialize_monitor
    then show ?thesis using assms(2) Cons a s1
      by (auto simp: step_def s1_def [symmetric] monitor_occupancy_def timeout_def
          nmcr_invariant_schedule)
  next
    case Timeout_monitor
    then show ?thesis using assms(2) Cons a s1
      by (auto simp: step_def s1_def [symmetric] monitor_occupancy_def timeout_def
          nmcr_invariant_schedule)
  next
    case Initialize_generator
    then show ?thesis using assms(2) Cons a s1
      by (auto simp: step_def s1_def [symmetric] dest: nmcr_invariant_patient_generator)
  next
    case (Timeout_generator pid)
    then show ?thesis using assms(2) Cons a s1
      by (auto simp: step_def s1_def [symmetric] spawn_patient_def choice_def exponential_def
          Let_def nmcr_invariant_schedule
          split: if_splits dest!: nmcr_invariant_patient_generator [rotated])
  next
    case (Initialize_patient pid ptype los)
    then have "admit_patient cfg rng pid ptype los s1 = Running s'"
      using assms(2) Cons a by (simp add: step_def s1_def)
    then obtain f where "s' = request f (s1\<lparr>draws := draws s1 + nmcr_calls cfg rng (draws s1)\<rparr>)"
      and "length_of_stay f = los"
      and "(reason f, total_length_of_stay f - los) = nmcr_outcome cfg rng (draws s1)"
      and "has_nmcr_delay f = (reason f \<noteq> None)"
      using admit_patient_Running by blast
    then show ?thesis using s1
      by (auto simp: nmcr_frame_def intro!: nmcr_invariant_request)
  next
    case (Request f)
    then show ?thesis using assms(2) Cons a s1 ev
      by (auto simp: step_def s1_def [symmetric] occupy_bed_def timeout_def
          split: if_splits intro!: nmcr_invariant_schedule)
  next
    case (Timeout_patient f)
    then show ?thesis using assms(2) Cons a s1 ev
      by (auto simp: step_def s1_def [symmetric] intro!: nmcr_invariant_discharge)
  next
    case Release
    then show ?thesis using assms(2) Cons a s1
      by (auto simp: step_def s1_def [symmetric] nmcr_invariant_trigger_put)
  next
    case Process_end
    then show ?thesis using assms(2) Cons a s1 by (auto simp: step_def s1_def [symmetric])
  next
    case Until
    then show ?thesis using assms(2) Cons a s1 by (auto simp: step_def s1_def [symmetric])
  qed
qed

lemma nmcr_invariant_start:
  assumes "start cfg d = Inr s"
  shows "nmcr_invariant cfg rng s"
  using assms
  by (auto simp: start_def hospital_init_def nmcr_invariant_def schedule_def Let_def
      set_insort_key split: if_splits)

lemma nmcr_invariant_run:
  assumes "run_simulation cfg rng d n = Running s \<or> run_simulation cfg rng d n = Stopped s"
  shows "nmcr_invariant cfg rng s"
proof (cases "start cfg d")
  case (Inl e)
  then show ?thesis using assms by (simp add: run_simulation_def)
next
  case (Inr s0)
  have "env_run cfg rng n s0 = Running s \<or> env_run cfg rng n s0 = Stopped s"
    using assms Inr by (simp add: run_simulation_def)
  with nmcr_invariant_step nmcr_invariant_start [OF Inr] show ?thesis
    by (rule env_run_invariant [where P = "nmcr_invariant cfg rng"])
qed

text \<open>The steps that admit and discharge a patient make no call to the generator.\<close>

lemma stay_steps_draw_nothing:
  assumes "step cfg rng s = Running s'"
    and "queue s = (k, Request f) # q \<or> queue s = (k, Timeout_patient f) # q"
  shows "draws s' = draws s"
  using assms
  by (cases k) (auto simp: step_def occupy_bed_def timeout_def discharge_def release_def
      process_end_def Let_def split: if_splits)



section \<open>One sample per time unit, and one per admission and discharge\<close>

lemma env_run_Running_invariant:
  assumes "\<And>s s'. P s \<Longrightarrow> step cfg rng s = Running s' \<Longrightarrow> P s'"
    and "P s0" and "env_run cfg rng n s0 = Running s"
  shows "P s"
  using assms(2,3)
proof (induction n arbitrary: s0)
  case 0
  then show ?case by simp
next
  case (Suc n)
  then show ?case using assms(1) by (cases "step cfg rng s0") auto
qed

lemma env_run_Stopped_last:
  assumes "env_run cfg rng n s0 = Stopped s"
  shows "\<exists>m s1. env_run cfg rng m s0 = Running s1 \<and> step cfg rng s1 = Stopped s"
  using assms
proof (induction n arbitrary: s0)
  case 0
  then show ?case by simp
next
  case (Suc n)
  show ?case
  proof (cases "step cfg rng s0")
    case (Running s1)
    then have "env_run cfg rng n s1 = Stopped s" using Suc.prems by simp
    then obtain m s2 where "env_run cfg rng m s1 = Running s2" and "step cfg rng s2 = Stopped s"
      using Suc.IH by blast
    then have "env_run cfg rng (Suc m) s0 = Running s2 \<and> step cfg rng s2 = Stopped s"
      using Running by simp
    then show ?thesis by blast
  next
    case (Stopped s1)
    then have "env_run cfg rng 0 s0 = Running s0 \<and> step cfg rng s0 = Stopped s"
      using Suc.prems by simp
    then show ?thesis by blast
  next
    case (Raised e)
    then show ?thesis using Suc.prems by simp
  qed
qed

lemma monitor_at_other [simp]:
  assumes "\<not> is_monitor ev"
  shows "monitor_at (insort_key fst (k, ev) q) m = monitor_at q m"
    and "monitor_at ((k, ev) # q) m = monitor_at q m"
  using assms by (simp_all add: monitor_at_def)

lemma until_pending_insort [simp]:
  assumes "ev \<noteq> Until"
  shows "until_pending cfg (insort_key fst (k, ev) q) = until_pending cfg q"
    and "until_pending cfg ((k, ev) # q) = until_pending cfg q"
  using assms by (auto simp: until_pending_def set_insort_key)

lemma sample_invariant_updates [simp]:
  "sample_invariant cfg (s\<lparr>occupied_beds := b\<rparr>) = sample_invariant cfg s"
  "sample_invariant cfg (s\<lparr>users := u\<rparr>) = sample_invariant cfg s"
  "sample_invariant cfg (s\<lparr>put_queue := w\<rparr>) = sample_invariant cfg s"
  "sample_invariant cfg (s\<lparr>draws := n\<rparr>) = sample_invariant cfg s"
  "sample_invariant cfg (s\<lparr>now := t\<rparr>) = sample_invariant cfg s"
  by (simp_all add: sample_invariant_def)

lemma sample_invariant_schedule:
  assumes "sample_invariant cfg s" and "\<not> is_monitor ev" and "\<not> staying ev" and "ev \<noteq> Until"
  shows "sample_invariant cfg (schedule ev p d s)"
  using assms by (simp add: sample_invariant_def sorted_insort_key)

lemma sample_invariant_pop:
  assumes "sample_invariant cfg s" and "queue s = (k, ev) # q"
    and "\<not> is_monitor ev" and "\<not> staying ev" and "ev \<noteq> Until"
  shows "sample_invariant cfg (s\<lparr>now := t, queue := q\<rparr>)"
  using assms by (simp add: sample_invariant_def)

lemma sample_invariant_trigger_put:
  assumes "sample_invariant cfg s"
  shows "sample_invariant cfg (trigger_put s)"
  using assms
  by (auto simp: trigger_put_def sample_invariant_schedule split: list.splits)

lemma sample_invariant_patient_generator:
  assumes "sample_invariant cfg s" and "patient_generator cfg rng pid s = Running s'"
  shows "sample_invariant cfg s'"
  using assms
  by (auto simp: patient_generator_def process_end_def timeout_def exponential_def Let_def
      sample_invariant_schedule split: if_splits)

text \<open>A round of the monitor: it is not the last event before the horizon.\<close>

lemma sample_invariant_monitor:
  assumes "sample_invariant cfg s" and "queue s = ((t, p, i), ev) # q" and "is_monitor ev"
  shows "sample_invariant cfg
    (schedule Timeout_monitor NORMAL 1 (record_occupancy (s\<lparr>now := t, queue := q\<rparr>)))"
proof -
  obtain m where mon: "monitor_at (queue s) m" and le: "int m \<le> SIMULATION_TIME cfg"
    and ticks: "\<forall>k < m. of_nat k \<in> set (times_log s)"
    and count: "length (times_log s)
        = m + size (filter_mset staying (pending (queue s))) + 2 * length (patients s)"
    using assms(1) by (auto simp: sample_invariant_def)
  have t: "t = of_nat m" and rest: "filter_mset (is_monitor \<circ> snd) (mset q) = {#}"
    and prio: "ev = Timeout_monitor \<and> p = NORMAL \<or> ev = Initialize_monitor \<and> m = 0"
    using mon assms(2,3) by (auto simp: monitor_at_def)
  obtain x where x: "x \<in> set (queue s)" "snd x = Until"
    and key: "fst (fst x) = of_int (SIMULATION_TIME cfg)" "fst (snd (fst x)) = URGENT"
    using assms(1) by (auto simp: sample_invariant_def until_pending_def)
  have "x \<in> set q" using x assms(2,3) by auto
  then have "(t, p, i) \<le> fst x"
    using assms(1,2) by (auto simp: sample_invariant_def)
  then have "t < of_int (SIMULATION_TIME cfg) \<or> t = of_int (SIMULATION_TIME cfg) \<and> p = 0"
    using key by (cases x) (auto simp: less_eq_prod_def URGENT_def)
  moreover have "(of_nat m :: rat) < of_int (SIMULATION_TIME cfg)" if "m = 0"
    using that assms(1) by (simp add: sample_invariant_def)
  ultimately have "(of_nat m :: rat) < of_int (SIMULATION_TIME cfg)"
    using prio t by (auto simp: NORMAL_def)
  then have "int m < SIMULATION_TIME cfg"
    by (metis of_int_less_iff of_int_of_nat_eq)
  then have le': "int (Suc m) \<le> SIMULATION_TIME cfg" by simp
  have mon': "monitor_at (insort_key fst ((of_nat m + 1, NORMAL, eid s), Timeout_monitor) q) (Suc m)"
    using rest by (simp add: monitor_at_def add.commute)
  have ticks': "\<forall>k < Suc m. of_nat k \<in> set (times_log s @ [of_nat m])"
    using ticks by (auto simp: less_Suc_eq)
  have until': "until_pending cfg q"
    using assms(1,2,3) by (cases ev) (auto simp: sample_invariant_def)
  have staying: "pending (queue s) = add_mset ev (pending q)" "\<not> staying ev"
    using assms(2,3) by (cases ev; simp)+
  show ?thesis
    unfolding sample_invariant_def
    using assms(1,2) le' mon' ticks' until' staying count t
    by (auto simp: sample_invariant_def sorted_insort_key intro!: exI [of _ "Suc m"])
qed

lemma sample_invariant_occupy:
  assumes "sample_invariant cfg s" and "queue s = (k, Request f) # q"
  shows "sample_invariant cfg
    (schedule (Timeout_patient f) NORMAL d
       (record_occupancy (s\<lparr>now := t, queue := q, occupied_beds := b\<rparr>)))"
  using assms by (auto simp: sample_invariant_def sorted_insort_key)

lemma sample_invariant_discharge:
  assumes "sample_invariant cfg s" and "queue s = (k, Timeout_patient f) # q"
  shows "sample_invariant cfg (discharge f (s\<lparr>now := t, queue := q\<rparr>))"
  using assms
  by (auto simp: sample_invariant_def discharge_def release_def process_end_def Let_def
      sorted_insort_key)

lemma sample_invariant_step:
  assumes "sample_invariant cfg s" and "step cfg rng s = Running s'"
  shows "sample_invariant cfg s'"
proof (cases "queue s")
  case Nil
  then show ?thesis using assms by (simp add: step_def)
next
  case (Cons a q)
  obtain t p i ev where a: "a = ((t, p, i), ev)" by (cases a) auto
  define s1 where "s1 = s\<lparr>now := t, queue := q\<rparr>"
  note head = Cons [unfolded a]
  show ?thesis
  proof (cases ev)
    case Initialize_monitor
    then show ?thesis using assms head sample_invariant_monitor [OF assms(1) head]
      by (auto simp: step_def monitor_occupancy_def timeout_def Let_def)
  next
    case Timeout_monitor
    then show ?thesis using assms head sample_invariant_monitor [OF assms(1) head]
      by (auto simp: step_def monitor_occupancy_def timeout_def Let_def)
  next
    case Initialize_generator
    then have "sample_invariant cfg s1"
      using sample_invariant_pop [OF assms(1) head] by (simp add: s1_def)
    then show ?thesis using assms(2) head Initialize_generator
      by (auto simp: step_def s1_def [symmetric] dest: sample_invariant_patient_generator)
  next
    case (Timeout_generator pid)
    then have "sample_invariant cfg s1"
      using sample_invariant_pop [OF assms(1) head] by (simp add: s1_def)
    then show ?thesis using assms(2) head Timeout_generator
      by (auto simp: step_def s1_def [symmetric] spawn_patient_def choice_def exponential_def
          Let_def sample_invariant_schedule
          split: if_splits dest!: sample_invariant_patient_generator [rotated])
  next
    case (Initialize_patient pid ptype los)
    then have "sample_invariant cfg s1"
      using sample_invariant_pop [OF assms(1) head] by (simp add: s1_def)
    then show ?thesis using assms(2) head Initialize_patient
      by (auto simp: step_def s1_def [symmetric] admit_patient_def rand_def exponential_def
          request_def Let_def split: if_splits intro!: sample_invariant_trigger_put)
  next
    case (Request f)
    then show ?thesis using assms(2) head sample_invariant_occupy [OF assms(1)]
      by (auto simp: step_def occupy_bed_def timeout_def Let_def split: if_splits)
  next
    case (Timeout_patient f)
    then show ?thesis using assms(2) head sample_invariant_discharge [OF assms(1)]
      by (auto simp: step_def Let_def)
  next
    case Release
    then have "sample_invariant cfg s1"
      using sample_invariant_pop [OF assms(1) head] by (simp add: s1_def)
    then show ?thesis using assms(2) head Release
      by (auto simp: step_def s1_def [symmetric] sample_invariant_trigger_put)
  next
    case Process_end
    then have "sample_invariant cfg s1"
      using sample_invariant_pop [OF assms(1) head] by (simp add: s1_def)
    then show ?thesis using assms(2) head Process_end
      by (auto simp: step_def s1_def [symmetric])
  next
    case Until
    then show ?thesis using assms(2) head by (auto simp: step_def Let_def)
  qed
qed

lemma sample_invariant_start:
  assumes "start cfg d = Inr s"
  shows "sample_invariant cfg s"
proof -
  have "0 < SIMULATION_TIME cfg"
    using assms by (auto simp: start_def hospital_init_def Let_def split: if_splits)
  moreover have "monitor_at (queue s) 0"
    using assms
    by (auto simp: start_def hospital_init_def Let_def schedule_def monitor_at_def
        split: if_splits)
  ultimately show ?thesis
    using assms
    by (auto simp: start_def hospital_init_def Let_def sample_invariant_def until_pending_def
        sorted_insort_key set_insort_key split: if_splits intro!: exI [of _ 0])
qed

lemma sample_invariant_run:
  assumes "run_simulation cfg rng d n = Running s"
  shows "sample_invariant cfg s"
proof (cases "start cfg d")
  case (Inl e)
  then show ?thesis using assms by (simp add: run_simulation_def)
next
  case (Inr s0)
  have "env_run cfg rng n s0 = Running s"
    using assms Inr by (simp add: run_simulation_def)
  with sample_invariant_step sample_invariant_start [OF Inr] show ?thesis
    by (rule env_run_Running_invariant [where P = "sample_invariant cfg"])
qed

lemma run_simulation_Stopped_last:
  assumes "run_simulation cfg rng d n = Stopped s"
  shows "\<exists>m s1. run_simulation cfg rng d m = Running s1 \<and> step cfg rng s1 = Stopped s"
  using assms
  by (auto simp: run_simulation_def split: sum.splits dest: env_run_Stopped_last)

text \<open>When the run stops, the clock is at the horizon and the monitor has made a round
  at every whole time below it, and no other.\<close>

lemma samples_at_stop:
  assumes "sample_invariant cfg s1" and "step cfg rng s1 = Stopped s"
  shows "now s = of_int (SIMULATION_TIME cfg)"
    and "\<forall>k < nat (SIMULATION_TIME cfg). of_nat k \<in> set (times_log s)"
    and "length (times_log s) = nat (SIMULATION_TIME cfg)
          + size (filter_mset staying (pending (queue s))) + 2 * length (patients s)"
    and "length (occupancy s) = length (times_log s)"
proof -
  obtain k q where head: "queue s1 = (k, Until) # q" and s: "s = s1\<lparr>now := fst k, queue := q\<rparr>"
    using step_Stopped [OF assms(2)] by blast
  have k: "fst k = of_int (SIMULATION_TIME cfg)"
    using assms(1) head by (simp add: sample_invariant_def until_pending_def)
  then show "now s = of_int (SIMULATION_TIME cfg)" using s by simp
  obtain m where mon: "monitor_at (queue s1) m" and le: "int m \<le> SIMULATION_TIME cfg"
    and ticks: "\<forall>k < m. of_nat k \<in> set (times_log s1)"
    and count: "length (times_log s1)
        = m + size (filter_mset staying (pending (queue s1))) + 2 * length (patients s1)"
    using assms(1) by (auto simp: sample_invariant_def)
  obtain p i ev where "filter_mset (is_monitor \<circ> snd) (mset q) = {#((of_nat m, p, i), ev)#}"
    using mon head by (auto simp: monitor_at_def)
  then have "((of_nat m, p, i), ev) \<in># filter_mset (is_monitor \<circ> snd) (mset q)" by simp
  then have "((of_nat m, p, i), ev) \<in> set q" by simp
  then have "k \<le> (of_nat m, p, i)"
    using assms(1) head by (auto simp: sample_invariant_def)
  then have "(of_int (SIMULATION_TIME cfg) :: rat) \<le> of_nat m"
    using k by (cases k) (auto simp: less_eq_prod_def)
  then have "SIMULATION_TIME cfg \<le> int m"
    by (metis of_int_le_iff of_int_of_nat_eq)
  then have m: "m = nat (SIMULATION_TIME cfg)" using le by simp
  show "\<forall>k < nat (SIMULATION_TIME cfg). of_nat k \<in> set (times_log s)"
    using ticks m s by simp
  show "length (times_log s) = nat (SIMULATION_TIME cfg)
          + size (filter_mset staying (pending (queue s))) + 2 * length (patients s)"
    using count m s head by simp
  show "length (occupancy s) = length (times_log s)"
    using assms(1) s by (simp add: sample_invariant_def)
qed

text \<open>What one step does to the samples.\<close>

lemma step_of_monitor:
  assumes "step cfg rng s = Running s'" and "queue s = (k, ev) # q" and "is_monitor ev"
  shows "occupied_beds s' = occupied_beds s \<and> occupancy s' = occupancy s @ [occupied_beds s]
    \<and> times_log s' = times_log s @ [fst k] \<and> now s' = fst k
    \<and> (\<exists>i. ((fst k + 1, NORMAL, i), Timeout_monitor) \<in> set (queue s'))"
  using assms
  by (cases k; cases ev)
    (auto simp: step_def monitor_occupancy_def timeout_def Let_def set_insort_key)

lemma step_changes_occupied_beds:
  assumes "step cfg rng s = Running s'" and "occupied_beds s' \<noteq> occupied_beds s"
  shows "(occupied_beds s' = occupied_beds s + 1 \<or> occupied_beds s' = occupied_beds s - 1)
    \<and> occupancy s' = occupancy s @ [occupied_beds s'] \<and> times_log s' = times_log s @ [now s']"
proof (cases "queue s")
  case Nil
  then show ?thesis using assms by (simp add: step_def)
next
  case (Cons a q)
  obtain t p i ev where a: "a = ((t, p, i), ev)" by (cases a) auto
  show ?thesis
    using assms Cons a
    by (cases ev)
      (auto simp: step_def monitor_occupancy_def timeout_def patient_generator_def
        process_end_def exponential_def spawn_patient_def choice_def admit_patient_def rand_def
        request_def trigger_put_def occupy_bed_def discharge_def release_def Let_def
        split: if_splits list.splits)
qed

text \<open>
  C8. A run that has stopped is at the horizon, and its time samples hold every whole
  time \<open>0, 1, \<dots>\<close> below the horizon; the samples are as many as these rounds of the
  monitor plus one for every admission and one for every discharge (the patients still
  in a bed were admitted, those of the log admitted and discharged), with one occupancy
  value per time. In a run that goes on, a step of the monitor appends the current bed
  count with the current time and schedules its next round one time unit later; and a
  step that changes the bed count changes it by one, up or down, and appends the new
  count with the current time in that same step.
\<close>

theorem occupancy_recorder_samples:
  "(run_simulation cfg rng d n = Stopped s \<longrightarrow>
      now s = of_int (SIMULATION_TIME cfg)
      \<and> (\<forall>k < nat (SIMULATION_TIME cfg). of_nat k \<in> set (times_log s))
      \<and> length (times_log s) = nat (SIMULATION_TIME cfg)
           + size (filter_mset staying (pending (queue s))) + 2 * length (patients s)
      \<and> length (occupancy s) = length (times_log s))
   \<and> (run_simulation cfg rng d n = Running s \<and> step cfg rng s = Running s' \<longrightarrow>
      (\<forall>k ev q. queue s = (k, ev) # q \<and> is_monitor ev \<longrightarrow>
         occupied_beds s' = occupied_beds s \<and> occupancy s' = occupancy s @ [occupied_beds s]
         \<and> times_log s' = times_log s @ [fst k] \<and> now s' = fst k
         \<and> (\<exists>i. ((fst k + 1, NORMAL, i), Timeout_monitor) \<in> set (queue s')))
      \<and> (occupied_beds s' \<noteq> occupied_beds s \<longrightarrow>
         (occupied_beds s' = occupied_beds s + 1 \<or> occupied_beds s' = occupied_beds s - 1)
         \<and> occupancy s' = occupancy s @ [occupied_beds s']
         \<and> times_log s' = times_log s @ [now s']))"
proof (intro conjI impI)
  assume "run_simulation cfg rng d n = Stopped s"
  then obtain m s1 where "run_simulation cfg rng d m = Running s1"
    and stop: "step cfg rng s1 = Stopped s"
    using run_simulation_Stopped_last by blast
  then have "sample_invariant cfg s1" by (intro sample_invariant_run)
  from samples_at_stop [OF this stop]
  show "now s = of_int (SIMULATION_TIME cfg)"
    and "\<forall>k < nat (SIMULATION_TIME cfg). of_nat k \<in> set (times_log s)"
    and "length (times_log s) = nat (SIMULATION_TIME cfg)
           + size (filter_mset staying (pending (queue s))) + 2 * length (patients s)"
    and "length (occupancy s) = length (times_log s)"
    by blast+
next
  assume "run_simulation cfg rng d n = Running s \<and> step cfg rng s = Running s'"
  then have step: "step cfg rng s = Running s'" by simp
  then show "\<forall>k ev q. queue s = (k, ev) # q \<and> is_monitor ev \<longrightarrow>
         occupied_beds s' = occupied_beds s \<and> occupancy s' = occupancy s @ [occupied_beds s]
         \<and> times_log s' = times_log s @ [fst k] \<and> now s' = fst k
         \<and> (\<exists>i. ((fst k + 1, NORMAL, i), Timeout_monitor) \<in> set (queue s'))"
    using step_of_monitor by blast
  {
    assume "occupied_beds s' \<noteq> occupied_beds s"
    with step
    show "occupied_beds s' = occupied_beds s + 1 \<or> occupied_beds s' = occupied_beds s - 1"
      and "occupancy s' = occupancy s @ [occupied_beds s']"
      and "times_log s' = times_log s @ [now s']"
      using step_changes_occupied_beds by blast+
  }
qed

theorem occupancy_recorder_samples_witness:
  "(\<exists>s. run_simulation queueing_config steady_random 0 24 = Stopped s \<and> now s = 5
      \<and> list_all (\<lambda>k. of_nat k \<in> set (times_log s)) [0..<5]
      \<and> length (times_log s) = 5 + 1 + 2 * 2 \<and> length (occupancy s) = length (times_log s))
   \<and> (\<exists>s s'. run_simulation queueing_config steady_random 0 5 = Running s
      \<and> step queueing_config steady_random s = Running s'
      \<and> occupied_beds s' = occupied_beds s + 1
      \<and> occupancy s' = occupancy s @ [occupied_beds s']
      \<and> times_log s' = times_log s @ [now s'])
   \<and> (\<exists>s s'. run_simulation queueing_config steady_random 0 2 = Running s
      \<and> step queueing_config steady_random s = Running s'
      \<and> occupied_beds s' = occupied_beds s \<and> occupancy s' = occupancy s @ [occupied_beds s]
      \<and> times_log s' = times_log s @ [1] \<and> now s' = 1
      \<and> (\<exists>i. ((2, NORMAL, i), Timeout_monitor) \<in> set (queue s')))"
proof (intro conjI)
  have "\<exists>s. run_simulation queueing_config steady_random 0 24 = Stopped s
      \<and> size (filter_mset staying (pending (queue s))) = 1 \<and> length (patients s) = 2"
    by (simp add: simulation_defs queueing_config_def steady_random_def eval_nat_numeral)
  then obtain s where run: "run_simulation queueing_config steady_random 0 24 = Stopped s"
    and counts: "size (filter_mset staying (pending (queue s))) = 1" "length (patients s) = 2"
    by blast
  have H: "SIMULATION_TIME queueing_config = 5" by (simp add: queueing_config_def)
  note samples = occupancy_recorder_samples [of queueing_config steady_random 0 24 s,
      THEN conjunct1, rule_format, OF run]
  have "now s = 5" using samples H by simp
  moreover have "list_all (\<lambda>k. of_nat k \<in> set (times_log s)) [0..<5]"
    using samples H by (simp add: list_all_iff)
  moreover have "length (times_log s) = 5 + 1 + 2 * 2"
    using samples H counts by simp
  moreover have "length (occupancy s) = length (times_log s)"
    using samples by simp
  ultimately
  show "\<exists>s. run_simulation queueing_config steady_random 0 24 = Stopped s \<and> now s = 5
      \<and> list_all (\<lambda>k. of_nat k \<in> set (times_log s)) [0..<5]
      \<and> length (times_log s) = 5 + 1 + 2 * 2 \<and> length (occupancy s) = length (times_log s)"
    using run by (intro exI [of _ s]) simp
next
  have "\<exists>s s'. run_simulation queueing_config steady_random 0 5 = Running s
      \<and> step queueing_config steady_random s = Running s'
      \<and> occupied_beds s' \<noteq> occupied_beds s \<and> occupied_beds s' \<noteq> occupied_beds s - 1"
    by (simp add: simulation_defs queueing_config_def steady_random_def eval_nat_numeral)
  then obtain s s' where run: "run_simulation queueing_config steady_random 0 5 = Running s"
    and step: "step queueing_config steady_random s = Running s'"
    and change: "occupied_beds s' \<noteq> occupied_beds s" "occupied_beds s' \<noteq> occupied_beds s - 1"
    by blast
  note samples = occupancy_recorder_samples [of queueing_config steady_random 0 5 s s',
      THEN conjunct2, rule_format, OF conjI [OF run step], THEN conjunct2, rule_format,
      OF change(1)]
  show "\<exists>s s'. run_simulation queueing_config steady_random 0 5 = Running s
      \<and> step queueing_config steady_random s = Running s'
      \<and> occupied_beds s' = occupied_beds s + 1
      \<and> occupancy s' = occupancy s @ [occupied_beds s']
      \<and> times_log s' = times_log s @ [now s']"
    using run step samples change(2) by (intro exI [of _ s] exI [of _ s']) simp
next
  have "\<exists>s s' i q. run_simulation queueing_config steady_random 0 2 = Running s
      \<and> step queueing_config steady_random s = Running s'
      \<and> queue s = ((1, 1, i), Timeout_monitor) # q"
    by (simp add: simulation_defs queueing_config_def steady_random_def eval_nat_numeral)
  then obtain s s' i q where run: "run_simulation queueing_config steady_random 0 2 = Running s"
    and step: "step queueing_config steady_random s = Running s'"
    and head: "queue s = ((1, 1, i), Timeout_monitor) # q"
    by blast
  note samples = occupancy_recorder_samples [of queueing_config steady_random 0 2 s s',
      THEN conjunct2, rule_format, OF conjI [OF run step], THEN conjunct1, rule_format,
      of "(1, 1, i)" Timeout_monitor q]
  have "occupied_beds s' = occupied_beds s \<and> occupancy s' = occupancy s @ [occupied_beds s]
         \<and> times_log s' = times_log s @ [1] \<and> now s' = 1
         \<and> (\<exists>i. ((2, NORMAL, i), Timeout_monitor) \<in> set (queue s'))"
    using samples head by simp
  then show "\<exists>s s'. run_simulation queueing_config steady_random 0 2 = Running s
      \<and> step queueing_config steady_random s = Running s'
      \<and> occupied_beds s' = occupied_beds s \<and> occupancy s' = occupancy s @ [occupied_beds s]
      \<and> times_log s' = times_log s @ [1] \<and> now s' = 1
      \<and> (\<exists>i. ((2, NORMAL, i), Timeout_monitor) \<in> set (queue s'))"
    using run step by (intro exI [of _ s] exI [of _ s']) simp
qed

section \<open>A patient that is still waiting is not in the log\<close>

lemma all_ids_schedule [simp]: "all_ids (schedule ev p d s) = event_ids ev + all_ids s"
  by (simp add: all_ids_def)

lemma all_ids_updates [simp]:
  "all_ids (s\<lparr>occupied_beds := b\<rparr>) = all_ids s"
  "all_ids (s\<lparr>users := u\<rparr>) = all_ids s"
  "all_ids (s\<lparr>draws := n\<rparr>) = all_ids s"
  "all_ids (s\<lparr>now := t\<rparr>) = all_ids s"
  "all_ids (record_occupancy s) = all_ids s"
  by (simp_all add: all_ids_def)

lemma all_ids_pop:
  assumes "queue s = (k, ev) # q"
  shows "all_ids s = event_ids ev + all_ids (s\<lparr>now := t, queue := q\<rparr>)"
  using assms by (simp add: all_ids_def)

lemma all_ids_trigger_put [simp]: "all_ids (trigger_put s) = all_ids s"
  by (simp add: trigger_put_def all_ids_def split: list.splits)

lemma all_ids_request [simp]: "all_ids (request f s) = add_mset (patient_id f) (all_ids s)"
  by (simp add: request_def) (simp add: all_ids_def)

lemma all_ids_discharge [simp]: "all_ids (discharge f s) = add_mset (patient_id f) (all_ids s)"
  by (simp add: discharge_def release_def process_end_def Let_def) (simp add: all_ids_def)

lemma pending_trigger_put:
  "filter_mset is_generator (pending (queue (trigger_put s)))
     = filter_mset is_generator (pending (queue s))"
  "ev \<in># pending (queue (trigger_put s)) \<Longrightarrow> generator_next ev = Some k
     \<Longrightarrow> ev \<in># pending (queue s)"
  "f \<in> set (put_queue (trigger_put s)) \<Longrightarrow> f \<in> set (put_queue s)"
  by (auto simp: trigger_put_def split: list.splits if_splits)

text \<open>The invariant, for a state given by its parts.\<close>

lemma id_invariantI:
  assumes "\<forall>x. count ids x \<le> 1" and "all_ids s = ids"
    and "size (filter_mset is_generator (pending (queue s))) \<le> 1"
    and "\<And>ev k. ev \<in># pending (queue s) \<Longrightarrow> generator_next ev = Some k \<Longrightarrow> \<forall>x \<in># ids. x < k"
    and "\<forall>f \<in> set (put_queue s). usage_since f = None"
  shows "id_invariant s"
  using assms unfolding id_invariant_def by blast

lemma id_invariant_pop:
  assumes "id_invariant s" and "queue s = ((t, p, i), ev) # q"
  shows "id_invariant (s\<lparr>now := t, queue := q\<rparr>)"
proof -
  define s1 where "s1 = s\<lparr>now := t, queue := q\<rparr>"
  have ids: "all_ids s = event_ids ev + all_ids s1"
    unfolding s1_def using assms(2) by (rule all_ids_pop)
  have pend: "pending (queue s) = add_mset ev (pending (queue s1))"
    using assms(2) by (simp add: s1_def)
  have "id_invariant s1"
  proof (rule id_invariantI [where ids = "all_ids s1"])
    show "\<forall>x. count (all_ids s1) x \<le> 1"
    proof
      fix x
      have "count (all_ids s1) x \<le> count (all_ids s) x" by (simp add: ids)
      also have "\<dots> \<le> 1" using assms(1) by (simp add: id_invariant_def)
      finally show "count (all_ids s1) x \<le> 1" .
    qed
    show "all_ids s1 = all_ids s1" ..
    have "size (filter_mset is_generator (pending (queue s1)))
        \<le> size (filter_mset is_generator (pending (queue s)))"
      by (simp add: pend)
    then show "size (filter_mset is_generator (pending (queue s1))) \<le> 1"
      using assms(1) by (simp add: id_invariant_def)
    show "\<forall>f \<in> set (put_queue s1). usage_since f = None"
      using assms(1) by (simp add: id_invariant_def s1_def)
    fix ev' k assume "ev' \<in># pending (queue s1)" and k: "generator_next ev' = Some k"
    then have "ev' \<in># pending (queue s)" by (simp add: pend)
    then have "\<forall>x \<in># all_ids s. x < k"
      using assms(1) k unfolding id_invariant_def by blast
    then show "\<forall>x \<in># all_ids s1. x < k" by (simp add: ids)
  qed
  then show ?thesis by (simp add: s1_def)
qed

lemma id_invariant_schedule:
  assumes "id_invariant s" and "\<not> is_generator ev" and "event_ids ev = {#}"
  shows "id_invariant (schedule ev p d s)"
  using assms by (cases ev) (auto simp: id_invariant_def)

lemma id_invariant_updates [simp]:
  "id_invariant (s\<lparr>occupied_beds := b\<rparr>) = id_invariant s"
  "id_invariant (s\<lparr>users := u\<rparr>) = id_invariant s"
  "id_invariant (s\<lparr>draws := n\<rparr>) = id_invariant s"
  "id_invariant (record_occupancy s) = id_invariant s"
  by (simp_all add: id_invariant_def all_ids_def)

lemma id_invariant_trigger_put:
  assumes "id_invariant s"
  shows "id_invariant (trigger_put s)"
  unfolding id_invariant_def all_ids_trigger_put
proof (intro conjI)
  show "\<forall>x. count (all_ids s) x \<le> 1"
    using assms by (simp add: id_invariant_def)
  show "size (filter_mset is_generator (pending (queue (trigger_put s)))) \<le> 1"
    using assms by (simp add: pending_trigger_put(1) id_invariant_def)
  show "\<forall>ev \<in># pending (queue (trigger_put s)).
      \<forall>k. generator_next ev = Some k \<longrightarrow> (\<forall>x \<in># all_ids s. x < k)"
    using assms pending_trigger_put(2) unfolding id_invariant_def by blast
  show "\<forall>f \<in> set (put_queue (trigger_put s)). usage_since f = None"
    using assms pending_trigger_put(3) unfolding id_invariant_def by blast
qed


lemma generator_next_is_generator: "generator_next ev = Some k \<Longrightarrow> is_generator ev"
  by (cases ev) simp_all

text \<open>A step that moves a patient along, and leaves the generator alone.\<close>

lemma id_invariant_same:
  assumes "id_invariant s" and "all_ids s' = all_ids s"
    and "filter_mset is_generator (pending (queue s'))
          = filter_mset is_generator (pending (queue s))"
    and "\<forall>f \<in> set (put_queue s'). usage_since f = None"
  shows "id_invariant s'"
proof (rule id_invariantI [where ids = "all_ids s"])
  show "\<forall>x. count (all_ids s) x \<le> 1" using assms(1) by (simp add: id_invariant_def)
  show "all_ids s' = all_ids s" by (rule assms(2))
  show "size (filter_mset is_generator (pending (queue s'))) \<le> 1"
    using assms(1,3) by (simp add: id_invariant_def)
  show "\<forall>f \<in> set (put_queue s'). usage_since f = None" by (rule assms(4))
  fix ev k assume ev: "ev \<in># pending (queue s')" and k: "generator_next ev = Some k"
  then have "ev \<in># filter_mset is_generator (pending (queue s'))"
    using generator_next_is_generator by simp
  then have "ev \<in># pending (queue s)" using assms(3) by simp
  then show "\<forall>x \<in># all_ids s. x < k" using assms(1) k unfolding id_invariant_def by blast
qed

lemma filter_generator_trigger_put [simp]:
  "filter_mset is_generator (pending (queue (trigger_put s)))
     = filter_mset is_generator (pending (queue s))"
  by (rule pending_trigger_put(1))

lemma waiting_trigger_put:
  assumes "\<forall>f \<in> set (put_queue s). usage_since f = None"
  shows "\<forall>f \<in> set (put_queue (trigger_put s)). usage_since f = None"
  using assms pending_trigger_put(3) by blast

text \<open>The generator, back at the head of its loop with the next identifier.\<close>

lemma id_invariant_patient_generator:
  assumes "\<forall>x. count (all_ids s) x \<le> 1"
    and "filter_mset is_generator (pending (queue s)) = {#}"
    and "\<forall>x \<in># all_ids s. x < pid"
    and "\<forall>f \<in> set (put_queue s). usage_since f = None"
    and "patient_generator cfg rng pid s = Running s'"
  shows "id_invariant s'"
proof -
  have none: "ev \<notin># pending (queue s)" if "generator_next ev = Some k" for ev k
  proof
    assume "ev \<in># pending (queue s)"
    then have "ev \<in># filter_mset is_generator (pending (queue s))"
      using that generator_next_is_generator by simp
    then show False using assms(2) by simp
  qed
  consider (wait) x where "s' = schedule (Timeout_generator pid) NORMAL x (s\<lparr>draws := draws s + 1\<rparr>)"
    | (return) "s' = process_end s"
    using assms(5)
    by (auto simp: patient_generator_def timeout_def exponential_def Let_def split: if_splits)
  then show ?thesis
  proof cases
    case wait
    show ?thesis
    proof (rule id_invariantI [where ids = "all_ids s"])
      show "\<forall>x. count (all_ids s) x \<le> 1" by (rule assms(1))
      show "all_ids s' = all_ids s" using wait by simp
      show "size (filter_mset is_generator (pending (queue s'))) \<le> 1"
        unfolding wait by (simp add: assms(2))
      show "\<forall>f \<in> set (put_queue s'). usage_since f = None" using assms(4) wait by simp
      fix ev k assume "ev \<in># pending (queue s')" and "generator_next ev = Some k"
      then have "k = pid" using wait none by (auto split: if_splits)
      then show "\<forall>x \<in># all_ids s. x < k" using assms(3) by simp
    qed
  next
    case return
    show ?thesis
    proof (rule id_invariantI [where ids = "all_ids s"])
      show "\<forall>x. count (all_ids s) x \<le> 1" by (rule assms(1))
      show "all_ids s' = all_ids s" using return by (simp add: process_end_def)
      show "size (filter_mset is_generator (pending (queue s'))) \<le> 1"
        unfolding return process_end_def by (simp add: assms(2))
      show "\<forall>f \<in> set (put_queue s'). usage_since f = None"
        using assms(4) return by (simp add: process_end_def)
      fix ev k assume "ev \<in># pending (queue s')" and "generator_next ev = Some k"
      then have False using return none by (auto simp: process_end_def split: if_splits)
      then show "\<forall>x \<in># all_ids s. x < k" ..
    qed
  qed
qed

lemma id_invariant_request:
  assumes "id_invariant s" and "patient_id f \<notin># all_ids s" and "usage_since f = None"
    and "\<forall>ev \<in># pending (queue s). \<forall>k. generator_next ev = Some k \<longrightarrow> patient_id f < k"
  shows "id_invariant (request f s)"
proof -
  define s0 where "s0 = s\<lparr>put_queue := sort_key request_key (put_queue s @ [f])\<rparr>"
  have ids: "all_ids s0 = add_mset (patient_id f) (all_ids s)"
    by (simp add: s0_def all_ids_def)
  have "id_invariant s0"
  proof (rule id_invariantI [where ids = "add_mset (patient_id f) (all_ids s)"])
    show "\<forall>x. count (add_mset (patient_id f) (all_ids s)) x \<le> 1"
      using assms(1,2) by (auto simp: id_invariant_def not_in_iff)
    show "all_ids s0 = add_mset (patient_id f) (all_ids s)" by (rule ids)
    show "size (filter_mset is_generator (pending (queue s0))) \<le> 1"
      using assms(1) by (simp add: s0_def id_invariant_def)
    show "\<forall>f \<in> set (put_queue s0). usage_since f = None"
      using assms(1,3) by (auto simp: s0_def id_invariant_def)
    fix ev k assume "ev \<in># pending (queue s0)" and "generator_next ev = Some k"
    then show "\<forall>x \<in># add_mset (patient_id f) (all_ids s). x < k"
      using assms(1,4) by (auto simp: s0_def id_invariant_def)
  qed
  then show ?thesis
    unfolding request_def s0_def [symmetric] by (rule id_invariant_trigger_put)
qed

lemma discharge_waiting [simp]:
  "put_queue (discharge f s) = put_queue s"
  "filter_mset is_generator (pending (queue (discharge f s)))
     = filter_mset is_generator (pending (queue s))"
  by (simp_all add: discharge_def release_def process_end_def Let_def)

lemma id_invariant_step:
  assumes "id_invariant s" and "step cfg rng s = Running s'"
  shows "id_invariant s'"
proof (cases "queue s")
  case Nil
  then show ?thesis using assms by (simp add: step_def)
next
  case (Cons a q)
  obtain t p i ev where a: "a = ((t, p, i), ev)" by (cases a) auto
  define s1 where "s1 = s\<lparr>now := t, queue := q\<rparr>"
  note head = Cons [unfolded a]
  have ids: "all_ids s = event_ids ev + all_ids s1"
    unfolding s1_def using head by (rule all_ids_pop)
  have s1: "queue s1 = q" "put_queue s1 = put_queue s" by (simp_all add: s1_def)
  have pend: "pending (queue s) = add_mset ev (pending q)" using head by simp
  have waiting: "\<forall>f \<in> set (put_queue s). usage_since f = None"
    using assms(1) by (simp add: id_invariant_def)
  have monitor: "id_invariant s'"
    if "s' = schedule Timeout_monitor NORMAL 1 (record_occupancy s1)" and "is_monitor ev"
    using assms(1) that waiting
    by - (rule id_invariant_same [of s]; cases ev; simp add: ids s1 pend)
  show ?thesis
  proof (cases ev)
    case Initialize_monitor
    then show ?thesis using assms(2) head monitor
      by (auto simp: step_def s1_def [symmetric] monitor_occupancy_def timeout_def)
  next
    case Timeout_monitor
    then show ?thesis using assms(2) head monitor
      by (auto simp: step_def s1_def [symmetric] monitor_occupancy_def timeout_def)
  next
    case Initialize_generator
    have "size (filter_mset is_generator (pending (queue s))) \<le> 1"
      and "\<forall>x \<in># all_ids s. x < 0"
      using assms(1) head Initialize_generator unfolding id_invariant_def by auto
    then have "filter_mset is_generator (pending (queue s1)) = {#}" and "\<forall>x \<in># all_ids s1. x < 0"
      and "\<forall>x. count (all_ids s1) x \<le> 1"
      using Initialize_generator by (simp_all add: ids s1 pend)
    moreover have "patient_generator cfg rng 0 s1 = Running s'"
      using assms(2) head Initialize_generator by (simp add: step_def s1_def)
    ultimately show ?thesis
      using waiting s1 by (intro id_invariant_patient_generator [of s1 0 cfg rng s']) simp_all
  next
    case (Timeout_generator pid)
    have one: "size (filter_mset is_generator (pending (queue s))) \<le> 1"
      and below: "\<forall>x \<in># all_ids s. x < pid" and distinct: "\<forall>x. count (all_ids s) x \<le> 1"
      using assms(1) head Timeout_generator unfolding id_invariant_def by auto
    obtain ptype los n where next_loop: "patient_generator cfg rng (pid + 1)
        (schedule (Initialize_patient pid ptype los) URGENT 0 (s1\<lparr>draws := n\<rparr>)) = Running s'"
      using assms(2) head Timeout_generator
      by (auto simp: step_def s1_def [symmetric] spawn_patient_def choice_def exponential_def
          Let_def split: if_splits)
    define s2 where "s2 = schedule (Initialize_patient pid ptype los) URGENT 0 (s1\<lparr>draws := n\<rparr>)"
    have ids2: "all_ids s2 = add_mset pid (all_ids s)"
      using ids Timeout_generator by (simp add: s2_def)
    have "\<forall>x. count (all_ids s2) x \<le> 1"
    proof
      fix x
      have "count (all_ids s) pid = 0" using below by (metis count_inI less_irrefl)
      then show "count (all_ids s2) x \<le> 1"
        using distinct [rule_format, of x] by (cases "x = pid") (simp_all add: ids2)
    qed
    moreover have "filter_mset is_generator (pending (queue s2)) = {#}"
      using one Timeout_generator by (simp add: s2_def s1 pend)
    moreover have "\<forall>x \<in># all_ids s2. x < pid + 1"
      using below by (auto simp: ids2)
    moreover have "\<forall>f \<in> set (put_queue s2). usage_since f = None"
      using waiting by (simp add: s2_def s1)
    ultimately show ?thesis
      using next_loop unfolding s2_def [symmetric]
      by (rule id_invariant_patient_generator)
  next
    case (Initialize_patient pid ptype los)
    then have "admit_patient cfg rng pid ptype los s1 = Running s'"
      using assms(2) head by (simp add: step_def s1_def)
    then obtain f where s': "s' = request f (s1\<lparr>draws := draws s1 + nmcr_calls cfg rng (draws s1)\<rparr>)"
      and f: "patient_id f = pid" "usage_since f = None"
      using admit_patient_Running by blast
    have "id_invariant s1"
      unfolding s1_def using assms(1) head by (rule id_invariant_pop)
    moreover have "pid \<notin># all_ids s1"
    proof -
      have "count (all_ids s) pid \<le> 1" using assms(1) by (simp add: id_invariant_def)
      then show ?thesis using ids Initialize_patient by (simp add: not_in_iff)
    qed
    moreover have "\<forall>ev \<in># pending (queue s1). \<forall>k. generator_next ev = Some k \<longrightarrow> pid < k"
    proof (intro ballI allI impI)
      fix ev' k assume "ev' \<in># pending (queue s1)" and "generator_next ev' = Some k"
      then have "ev' \<in># pending (queue s)" by (simp add: s1 pend)
      then have "\<forall>x \<in># all_ids s. x < k"
        using assms(1) \<open>generator_next ev' = Some k\<close> unfolding id_invariant_def by blast
      then show "pid < k" using ids Initialize_patient by simp
    qed
    ultimately show ?thesis
      unfolding s' using f by (intro id_invariant_request) simp_all
  next
    case (Request f)
    then obtain d where "s' = schedule (Timeout_patient f) NORMAL d
        (record_occupancy (s1\<lparr>occupied_beds := occupied_beds s1 + 1\<rparr>))"
      using assms(2) head
      by (auto simp: step_def s1_def [symmetric] occupy_bed_def timeout_def split: if_splits)
    then show ?thesis using assms(1) waiting Request
      by - (rule id_invariant_same [of s]; simp add: ids s1 pend)
  next
    case (Timeout_patient f)
    then have "s' = discharge f s1"
      using assms(2) head by (simp add: step_def s1_def)
    then show ?thesis using assms(1) waiting Timeout_patient
      by - (rule id_invariant_same [of s]; simp add: ids s1 pend)
  next
    case Release
    then have "s' = trigger_put s1"
      using assms(2) head by (simp add: step_def s1_def)
    moreover have "\<forall>f \<in> set (put_queue (trigger_put s1)). usage_since f = None"
      using waiting by (intro waiting_trigger_put) (simp add: s1)
    ultimately show ?thesis using assms(1) Release
      by - (rule id_invariant_same [of s]; simp add: ids s1 pend)
  next
    case Process_end
    then have "s' = s1"
      using assms(2) head by (simp add: step_def s1_def)
    then show ?thesis using assms(1) waiting Process_end
      by - (rule id_invariant_same [of s]; simp add: ids s1 pend)
  next
    case Until
    then show ?thesis using assms(2) head by (simp add: step_def)
  qed
qed

lemma id_invariant_start:
  assumes "start cfg d = Inr s"
  shows "id_invariant s"
  using assms
  by (auto simp: start_def hospital_init_def id_invariant_def all_ids_def schedule_def Let_def
      split: if_splits)

lemma id_invariant_run:
  assumes "run_simulation cfg rng d n = Running s"
  shows "id_invariant s"
proof (cases "start cfg d")
  case (Inl e)
  then show ?thesis using assms by (simp add: run_simulation_def)
next
  case (Inr s0)
  have "env_run cfg rng n s0 = Running s"
    using assms Inr by (simp add: run_simulation_def)
  with id_invariant_step id_invariant_start [OF Inr] show ?thesis
    by (rule env_run_Running_invariant [where P = id_invariant])
qed

text \<open>When the run stops, a waiting request was never granted and its patient has no record.\<close>

lemma waiting_at_stop:
  assumes "id_invariant s1" and "step cfg rng s1 = Stopped s" and "f \<in> set (put_queue s)"
  shows "usage_since f = None" and "patient_id f \<notin> Patient_ID ` set (patients s)"
proof -
  obtain k q where head: "queue s1 = (k, Until) # q" and s: "s = s1\<lparr>now := fst k, queue := q\<rparr>"
    using step_Stopped [OF assms(2)] by blast
  have f: "f \<in> set (put_queue s1)" using assms(3) s by simp
  then show "usage_since f = None" using assms(1) by (simp add: id_invariant_def)
  show "patient_id f \<notin> Patient_ID ` set (patients s)"
  proof
    assume "patient_id f \<in> Patient_ID ` set (patients s)"
    then have "patient_id f \<in># image_mset Patient_ID (mset (patients s1))"
      using s by simp
    moreover have "patient_id f \<in># image_mset patient_id (mset (put_queue s1))"
      using f by simp
    ultimately have "1 \<le> count (image_mset Patient_ID (mset (patients s1))) (patient_id f)"
      and "1 \<le> count (image_mset patient_id (mset (put_queue s1))) (patient_id f)"
      by simp_all
    moreover have "count (all_ids s1) (patient_id f)
        = count (\<Sum>ev \<in># pending (queue s1). event_ids ev) (patient_id f)
          + count (image_mset patient_id (mset (put_queue s1))) (patient_id f)
          + count (image_mset Patient_ID (mset (patients s1))) (patient_id f)"
      by (simp add: all_ids_def)
    moreover have "count (all_ids s1) (patient_id f) \<le> 1"
      using assms(1) by (simp add: id_invariant_def)
    ultimately show False by linarith
  qed
qed

section \<open>A run of a valid configuration stops at the horizon\<close>

subsection \<open>The bound on the remaining steps\<close>

lemma sum_list_insort_key:
  "sum_list (map w (insort_key f x xs)) = w x + sum_list (map w xs)"
  for w :: "'a \<Rightarrow> nat"
  by (induction xs) simp_all

lemma steps_left_schedule [simp]:
  "steps_left cfg gap (schedule ev p d s) = event_weight cfg gap (now s + d) ev + steps_left cfg gap s"
  by (simp add: steps_left_def schedule_def sum_list_insort_key)

lemma steps_left_updates [simp]:
  "steps_left cfg gap (s\<lparr>occupied_beds := b\<rparr>) = steps_left cfg gap s"
  "steps_left cfg gap (s\<lparr>users := u\<rparr>) = steps_left cfg gap s"
  "steps_left cfg gap (s\<lparr>draws := n\<rparr>) = steps_left cfg gap s"
  "steps_left cfg gap (s\<lparr>now := t\<rparr>) = steps_left cfg gap s"
  "steps_left cfg gap (s\<lparr>patients := l\<rparr>) = steps_left cfg gap s"
  "steps_left cfg gap (record_occupancy s) = steps_left cfg gap s"
  by (simp_all add: steps_left_def)

lemma steps_left_pop:
  assumes "queue s = ((t, p, i), ev) # q"
  shows "steps_left cfg gap s = event_weight cfg gap t ev + steps_left cfg gap (s\<lparr>now := t', queue := q\<rparr>)"
  using assms by (simp add: steps_left_def)

lemma steps_left_trigger_put [simp]: "steps_left cfg gap (trigger_put s) = steps_left cfg gap s"
  by (simp add: trigger_put_def split: list.splits) (simp add: steps_left_def)

lemma steps_left_request [simp]: "steps_left cfg gap (request f s) = 4 + steps_left cfg gap s"
  by (simp add: request_def) (simp add: steps_left_def)

lemma steps_left_discharge [simp]: "steps_left cfg gap (discharge f s) = 2 + steps_left cfg gap s"
  by (simp add: discharge_def release_def process_end_def Let_def)

lemma monitor_weight:
  fixes t h :: rat
  assumes "t < h"
  shows "nat \<lceil>h + 1 - (t + 1)\<rceil> < nat \<lceil>h + 1 - t\<rceil>"
proof -
  have "\<lceil>h + 1 - t\<rceil> = \<lceil>h - t\<rceil> + 1"
    by (metis add_diff_eq add.commute ceiling_add_one diff_add_eq)
  moreover have "0 < \<lceil>h - t\<rceil>" using assms by simp
  ultimately show ?thesis by simp
qed

lemma generator_weight:
  fixes t h gap x :: rat
  assumes "0 < gap" and "gap \<le> x" and "t < h"
  shows "nat \<lceil>(h - (t + x)) / gap\<rceil> + 1 \<le> nat \<lceil>(h - t) / gap\<rceil>"
proof -
  have "1 \<le> x / gap" using assms(1,2) by simp
  then have "(h - (t + x)) / gap \<le> (h - t) / gap - 1"
    by (simp add: diff_divide_distrib add_divide_distrib algebra_simps)
  then have "\<lceil>(h - (t + x)) / gap\<rceil> \<le> \<lceil>(h - t) / gap - 1\<rceil>" by (rule ceiling_mono)
  then have "\<lceil>(h - (t + x)) / gap\<rceil> + 1 \<le> \<lceil>(h - t) / gap\<rceil>" by simp
  moreover have "0 < \<lceil>(h - t) / gap\<rceil>" using assms(1,3) by simp
  ultimately show ?thesis by linarith
qed

text \<open>The facts about the total arrival rate of a valid configuration.\<close>

lemma total_rate_valid:
  assumes "valid_config cfg" and "sum_list (map (ARRIVAL_RATES cfg) patient_types) \<noteq> 0"
  shows "0 < sum_list (map (ARRIVAL_RATES cfg) patient_types)"
proof -
  have "0 \<le> ARRIVAL_RATES cfg Medical" "0 \<le> ARRIVAL_RATES cfg Surgical"
    using assms(1) by (simp_all add: valid_config_def)
  then show ?thesis using assms(2) by (simp add: patient_types_def)
qed

text \<open>The generator at the head of its loop: it does not raise, and its next wait counts
  six steps less than the one before.\<close>

lemma patient_generator_live:
  assumes "valid_config cfg" and "valid_random rng least"
  shows "\<exists>s'. patient_generator cfg rng pid s = Running s'
    \<and> steps_left cfg (least / sum_list (map (ARRIVAL_RATES cfg) patient_types)) s' + 5
        < steps_left cfg (least / sum_list (map (ARRIVAL_RATES cfg) patient_types)) s
          + event_weight cfg (least / sum_list (map (ARRIVAL_RATES cfg) patient_types)) (now s)
              Initialize_generator
    \<and> (live_invariant cfg s \<longrightarrow> live_invariant cfg s')
    \<and> queue s' \<noteq> []"
proof -
  let ?total = "sum_list (map (ARRIVAL_RATES cfg) patient_types)"
  let ?gap = "least / ?total"
  show ?thesis
  proof (cases "now s < of_int (SIMULATION_TIME cfg) \<and> ?total \<noteq> 0")
    case True
    then have total: "0 < ?total" using assms(1) total_rate_valid by blast
    define x where "x = 1 / ?total * exponential_draw rng (draws s)"
    have least: "0 < least" "least \<le> exponential_draw rng (draws s)"
      using assms(2) by (simp_all add: valid_random_def)
    have gap: "0 < ?gap" using total least by simp
    have "?gap \<le> x"
      using total least by (simp add: x_def divide_right_mono)
    then have "0 \<le> x" using gap by linarith
    have s': "patient_generator cfg rng pid s
        = Running (schedule (Timeout_generator pid) NORMAL x (s\<lparr>draws := draws s + 1\<rparr>))"
      using True total \<open>0 \<le> x\<close>
      by (simp add: patient_generator_def exponential_def timeout_def Let_def x_def)
    have "nat \<lceil>(of_int (SIMULATION_TIME cfg) - (now s + x)) / ?gap\<rceil> + 1
        \<le> nat \<lceil>(of_int (SIMULATION_TIME cfg) - now s) / ?gap\<rceil>"
      using gap \<open>?gap \<le> x\<close> True by (intro generator_weight) simp_all
    then show ?thesis
      using True unfolding s'
      by (auto simp: live_invariant_def set_insort_key)
  next
    case False
    then have "patient_generator cfg rng pid s = Running (process_end s)"
      by (auto simp: patient_generator_def Let_def)
    then show ?thesis
      by (auto simp: process_end_def live_invariant_def set_insort_key)
  qed
qed

subsection \<open>No step raises\<close>

lemma live_invariant_schedule:
  assumes "live_invariant cfg s" and "event_live cfg ev"
  shows "live_invariant cfg (schedule ev p d s)"
  using assms by (auto simp: live_invariant_def set_insort_key)

lemma live_invariant_updates [simp]:
  "live_invariant cfg (s\<lparr>occupied_beds := b\<rparr>) = live_invariant cfg s"
  "live_invariant cfg (s\<lparr>users := u\<rparr>) = live_invariant cfg s"
  "live_invariant cfg (s\<lparr>draws := n\<rparr>) = live_invariant cfg s"
  "live_invariant cfg (s\<lparr>patients := l\<rparr>) = live_invariant cfg s"
  "live_invariant cfg (record_occupancy s) = live_invariant cfg s"
  by (simp_all add: live_invariant_def)

lemma live_invariant_pop:
  assumes "live_invariant cfg s" and "queue s = ((t, p, i), ev) # q"
  shows "live_invariant cfg (s\<lparr>now := t, queue := q\<rparr>)" and "event_live cfg ev"
  using assms by (simp_all add: live_invariant_def)

lemma live_invariant_trigger_put:
  assumes "live_invariant cfg s"
  shows "live_invariant cfg (trigger_put s)"
  using assms
  by (auto simp: trigger_put_def live_invariant_def set_insort_key split: list.splits)

lemma live_invariant_request:
  assumes "live_invariant cfg s" and "0 \<le> total_length_of_stay f"
  shows "live_invariant cfg (request f s)"
proof -
  have "live_invariant cfg (s\<lparr>put_queue := sort_key request_key (put_queue s @ [f])\<rparr>)"
    using assms by (auto simp: live_invariant_def)
  then show ?thesis unfolding request_def by (rule live_invariant_trigger_put)
qed

lemma live_invariant_discharge:
  assumes "live_invariant cfg s"
  shows "live_invariant cfg (discharge f s)"
  using assms
  by (simp add: discharge_def release_def process_end_def Let_def live_invariant_schedule)

text \<open>The type of an arrival is drawn without an error.\<close>

lemma choice_valid:
  assumes "valid_config cfg" and "valid_random rng least"
    and "sum_list (map (ARRIVAL_RATES cfg) patient_types) \<noteq> 0"
  shows "\<exists>ptype. choice rng patient_types
      (map (\<lambda>p. ARRIVAL_RATES cfg p / sum_list (map (ARRIVAL_RATES cfg) patient_types))
         patient_types) s
    = Inr (ptype, s\<lparr>draws := draws s + 1\<rparr>)"
proof -
  let ?m = "ARRIVAL_RATES cfg Medical" and ?s = "ARRIVAL_RATES cfg Surgical"
  have rates: "0 \<le> ?m" "0 \<le> ?s" using assms(1) by (simp_all add: valid_config_def)
  have total: "0 < ?m + ?s" using total_rate_valid [OF assms(1,3)] by (simp add: patient_types_def)
  have one: "?m / (?m + ?s) + ?s / (?m + ?s) = 1"
    using total by (simp add: add_divide_distrib [symmetric])
  have u: "uniform_draw rng (draws s) < 1" using assms(2) by (simp add: valid_random_def)
  have nonneg: "0 \<le> ?m / (?m + ?s)" "0 \<le> ?s / (?m + ?s)" using rates total by simp_all
  show ?thesis
    using one u nonneg
    by (simp add: choice_def patient_types_def Let_def not_le not_less)
qed

text \<open>The delay of a valid configuration is not negative.\<close>

lemma nmcr_outcome_valid:
  assumes "valid_config cfg" and "valid_random rng least"
  shows "0 \<le> snd (nmcr_outcome cfg rng i)"
proof -
  have "0 \<le> exponential_draw rng (i + 2)"
    using assms(2) unfolding valid_random_def by (meson less_imp_le order_trans)
  moreover have "0 \<le> NMCR_INTERNAL_DELAY cfg" "0 \<le> NMCR_EXTERNAL_DELAY cfg"
    using assms(1) by (simp_all add: valid_config_def)
  ultimately show ?thesis by (simp add: nmcr_outcome_def)
qed

lemma admit_patient_valid:
  assumes "valid_config cfg"
  shows "\<exists>s'. admit_patient cfg rng pid ptype los s = Running s'"
proof -
  have "0 \<le> NMCR_INTERNAL_DELAY cfg" "0 \<le> NMCR_EXTERNAL_DELAY cfg"
    using assms by (simp_all add: valid_config_def)
  then show ?thesis
    by (simp add: admit_patient_def rand_def exponential_def Let_def not_less)
qed

text \<open>A round of the monitor is made before the horizon.\<close>

lemma monitor_before_horizon:
  assumes "sample_invariant cfg s" and "queue s = ((t, p, i), ev) # q" and "is_monitor ev"
  shows "t < of_int (SIMULATION_TIME cfg)"
proof -
  obtain m where mon: "monitor_at (queue s) m"
    using assms(1) by (auto simp: sample_invariant_def)
  have t: "t = of_nat m"
    and prio: "ev = Timeout_monitor \<and> p = NORMAL \<or> ev = Initialize_monitor \<and> m = 0"
    using mon assms(2,3) by (auto simp: monitor_at_def)
  obtain x where x: "x \<in> set (queue s)" "snd x = Until"
    and key: "fst (fst x) = of_int (SIMULATION_TIME cfg)" "fst (snd (fst x)) = URGENT"
    using assms(1) by (auto simp: sample_invariant_def until_pending_def)
  have "x \<in> set q" using x assms(2,3) by auto
  then have "(t, p, i) \<le> fst x"
    using assms(1,2) by (auto simp: sample_invariant_def)
  then have "t < of_int (SIMULATION_TIME cfg) \<or> t = of_int (SIMULATION_TIME cfg) \<and> p = 0"
    using key by (cases x) (auto simp: less_eq_prod_def URGENT_def)
  moreover have "(of_nat m :: rat) < of_int (SIMULATION_TIME cfg)" if "m = 0"
    using that assms(1) by (simp add: sample_invariant_def)
  ultimately show ?thesis
    using prio t by (auto simp: NORMAL_def)
qed

text \<open>
  One step of a valid run: it stops, or it goes on, without an error, to a state with
  fewer steps left.
\<close>

lemma step_live:
  assumes "valid_config cfg" and "valid_random rng least"
    and "sample_invariant cfg s" and "live_invariant cfg s"
  shows "(\<exists>s'. step cfg rng s = Stopped s')
    \<or> (\<exists>s'. step cfg rng s = Running s' \<and> live_invariant cfg s'
          \<and> steps_left cfg (least / sum_list (map (ARRIVAL_RATES cfg) patient_types)) s'
              < steps_left cfg (least / sum_list (map (ARRIVAL_RATES cfg) patient_types)) s)"
proof (cases "queue s")
  case Nil
  then show ?thesis using assms(3) by (simp add: sample_invariant_def until_pending_def)
next
  case (Cons a q)
  obtain t p i ev where a: "a = ((t, p, i), ev)" by (cases a) auto
  let ?gap = "least / sum_list (map (ARRIVAL_RATES cfg) patient_types)"
  define s1 where "s1 = s\<lparr>now := t, queue := q\<rparr>"
  note head = Cons [unfolded a]
  have s1: "live_invariant cfg s1" and ev: "event_live cfg ev"
    unfolding s1_def using live_invariant_pop [OF assms(4) head] by simp_all
  have left: "steps_left cfg ?gap s = event_weight cfg ?gap t ev + steps_left cfg ?gap s1"
    unfolding s1_def using head by (rule steps_left_pop)
  have now: "now s1 = t" by (simp add: s1_def)
  have monitor: ?thesis if "is_monitor ev"
  proof -
    have "t < of_int (SIMULATION_TIME cfg)"
      using assms(3) head that by (rule monitor_before_horizon)
    then have "nat \<lceil>of_int (SIMULATION_TIME cfg) + 1 - (t + 1)\<rceil>
        < nat \<lceil>of_int (SIMULATION_TIME cfg) + 1 - t\<rceil>"
      by (rule monitor_weight)
    moreover have "step cfg rng s = Running (schedule Timeout_monitor NORMAL 1 (record_occupancy s1))"
      using head that
      by (cases ev) (simp_all add: step_def s1_def monitor_occupancy_def timeout_def)
    ultimately show ?thesis
      using s1 that left now
      by (cases ev) (simp_all add: live_invariant_schedule)
  qed
  show ?thesis
  proof (cases ev)
    case Initialize_monitor
    then show ?thesis using monitor by simp
  next
    case Timeout_monitor
    then show ?thesis using monitor by simp
  next
    case Initialize_generator
    obtain s' where "patient_generator cfg rng 0 s1 = Running s'"
      and "steps_left cfg ?gap s' + 5
        < steps_left cfg ?gap s1 + event_weight cfg ?gap (now s1) Initialize_generator"
      and "live_invariant cfg s'"
      using patient_generator_live [OF assms(1,2), of 0 s1] s1 by blast
    then show ?thesis
      using head Initialize_generator left now by (simp add: step_def s1_def)
  next
    case (Timeout_generator pid)
    let ?total = "sum_list (map (ARRIVAL_RATES cfg) patient_types)"
    have total: "?total \<noteq> 0" using ev Timeout_generator by simp
    obtain ptype where ptype: "choice rng patient_types
        (map (\<lambda>p. ARRIVAL_RATES cfg p / ?total) patient_types) s1
        = Inr (ptype, s1\<lparr>draws := draws s1 + 1\<rparr>)"
      using choice_valid [OF assms(1,2) total] by blast
    define los where
      "los = MEAN_LOS cfg ptype * exponential_draw rng (draws s1 + 1) * COMPLEXITY_FACTORS cfg ptype"
    define s2 where
      "s2 = schedule (Initialize_patient pid ptype los) URGENT 0 (s1\<lparr>draws := draws s1 + 2\<rparr>)"
    have mean: "0 \<le> MEAN_LOS cfg ptype" and factor: "0 \<le> COMPLEXITY_FACTORS cfg ptype"
      using assms(1) unfolding valid_config_def by (meson order_trans zero_le_divide_1_iff zero_le_numeral zero_le_one)+
    have draw: "0 \<le> exponential_draw rng (draws s1 + 1)"
      using assms(2) unfolding valid_random_def by (meson less_imp_le order_trans)
    have "0 \<le> los" using mean factor draw by (simp add: los_def)
    then have s2: "live_invariant cfg s2"
      using s1 by (simp add: s2_def live_invariant_schedule)
    have spawn: "spawn_patient cfg rng pid s1 = patient_generator cfg rng (pid + 1) s2"
      using total ptype mean
      by (simp add: spawn_patient_def exponential_def Let_def s2_def los_def not_less)
    obtain s' where "patient_generator cfg rng (pid + 1) s2 = Running s'"
      and "steps_left cfg ?gap s' + 5
        < steps_left cfg ?gap s2 + event_weight cfg ?gap (now s2) Initialize_generator"
      and "live_invariant cfg s'"
      using patient_generator_live [OF assms(1,2), of "pid + 1" s2] s2 by blast
    then show ?thesis
      using head Timeout_generator left now spawn
      by (simp add: step_def s1_def [symmetric] s2_def)
  next
    case (Initialize_patient pid ptype los)
    obtain s' where admit: "admit_patient cfg rng pid ptype los s1 = Running s'"
      using admit_patient_valid [OF assms(1)] by blast
    then obtain f where s': "s' = request f (s1\<lparr>draws := draws s1 + nmcr_calls cfg rng (draws s1)\<rparr>)"
      and f: "length_of_stay f = los"
        "(reason f, total_length_of_stay f - los) = nmcr_outcome cfg rng (draws s1)"
      using admit_patient_Running by blast
    have "0 \<le> snd (nmcr_outcome cfg rng (draws s1))"
      using assms(1,2) by (rule nmcr_outcome_valid)
    then have "0 \<le> total_length_of_stay f - los" using f(2) by (metis snd_conv)
    then have "0 \<le> total_length_of_stay f" using ev Initialize_patient by simp
    then have "live_invariant cfg s'"
      unfolding s' using s1 by (intro live_invariant_request) simp_all
    then show ?thesis
      using head Initialize_patient left admit
      by (simp add: step_def s1_def [symmetric] s')
  next
    case (Request f)
    then have "step cfg rng s = Running (schedule (Timeout_patient f) NORMAL (total_length_of_stay f)
        (record_occupancy (s1\<lparr>occupied_beds := occupied_beds s1 + 1\<rparr>)))"
      using head ev by (simp add: step_def s1_def occupy_bed_def timeout_def not_less)
    then show ?thesis
      using Request left s1 by (simp add: live_invariant_schedule)
  next
    case (Timeout_patient f)
    then have "step cfg rng s = Running (discharge f s1)"
      using head by (simp add: step_def s1_def)
    then show ?thesis
      using Timeout_patient left s1 by (simp add: live_invariant_discharge)
  next
    case Release
    then have "step cfg rng s = Running (trigger_put s1)"
      using head by (simp add: step_def s1_def)
    then show ?thesis
      using Release left s1 by (simp add: live_invariant_trigger_put)
  next
    case Process_end
    then have "step cfg rng s = Running s1"
      using head by (simp add: step_def s1_def)
    then show ?thesis
      using Process_end left s1 by simp
  next
    case Until
    then show ?thesis using head by (simp add: step_def)
  qed
qed

subsection \<open>The run stops\<close>

lemma env_run_stops:
  assumes "valid_config cfg" and "valid_random rng least"
    and "sample_invariant cfg s" and "live_invariant cfg s"
  shows "\<exists>n s'. env_run cfg rng n s = Stopped s'"
  using assms(3,4)
proof (induction "steps_left cfg (least / sum_list (map (ARRIVAL_RATES cfg) patient_types)) s"
    arbitrary: s rule: less_induct)
  case less
  from step_live [OF assms(1,2) less.prems]
  consider (stop) s' where "step cfg rng s = Stopped s'"
    | (go) s' where "step cfg rng s = Running s'" and "live_invariant cfg s'"
      and "steps_left cfg (least / sum_list (map (ARRIVAL_RATES cfg) patient_types)) s'
            < steps_left cfg (least / sum_list (map (ARRIVAL_RATES cfg) patient_types)) s"
    by blast
  then show ?case
  proof cases
    case stop
    then have "env_run cfg rng (Suc 0) s = Stopped s'" by simp
    then show ?thesis by blast
  next
    case go
    have "sample_invariant cfg s'"
      using less.prems(1) go(1) by (rule sample_invariant_step)
    then obtain n s'' where "env_run cfg rng n s' = Stopped s''"
      using less.hyps [OF go(3) _ go(2)] by blast
    then have "env_run cfg rng (Suc n) s = Stopped s''" using go(1) by simp
    then show ?thesis by blast
  qed
qed

lemma env_run_Raised_last:
  assumes "env_run cfg rng n s0 = Raised e"
  shows "\<exists>m s1. env_run cfg rng m s0 = Running s1 \<and> step cfg rng s1 = Raised e"
  using assms
proof (induction n arbitrary: s0)
  case 0
  then show ?case by simp
next
  case (Suc n)
  show ?case
  proof (cases "step cfg rng s0")
    case (Running s1)
    then have "env_run cfg rng n s1 = Raised e" using Suc.prems by simp
    then obtain m s2 where "env_run cfg rng m s1 = Running s2" and "step cfg rng s2 = Raised e"
      using Suc.IH by blast
    then have "env_run cfg rng (Suc m) s0 = Running s2 \<and> step cfg rng s2 = Raised e"
      using Running by simp
    then show ?thesis by blast
  next
    case (Stopped s1)
    then show ?thesis using Suc.prems by simp
  next
    case (Raised e')
    then have "env_run cfg rng 0 s0 = Running s0 \<and> step cfg rng s0 = Raised e"
      using Suc.prems by simp
    then show ?thesis by blast
  qed
qed

lemma start_valid:
  assumes "valid_config cfg"
  shows "\<exists>s. start cfg d = Inr s \<and> live_invariant cfg s"
proof -
  have "0 \<le> NUM_BEDS cfg div EXTRA_BED_RATIO cfg"
    using assms by (simp add: valid_config_def pos_imp_zdiv_nonneg_iff)
  then show ?thesis
    using assms
    by (auto simp: valid_config_def start_def hospital_init_def Let_def live_invariant_def
        set_insort_key)
qed

lemma live_run:
  assumes "valid_config cfg" and "valid_random rng least" and "start cfg d = Inr s0"
    and "live_invariant cfg s0" and "env_run cfg rng n s0 = Running s"
  shows "sample_invariant cfg s \<and> live_invariant cfg s"
proof (rule env_run_Running_invariant
    [where P = "\<lambda>s. sample_invariant cfg s \<and> live_invariant cfg s", OF _ _ assms(5)])
  show "sample_invariant cfg s0 \<and> live_invariant cfg s0"
    using assms(3,4) sample_invariant_start by blast
  fix s s' assume inv: "sample_invariant cfg s \<and> live_invariant cfg s"
    and step: "step cfg rng s = Running s'"
  have "sample_invariant cfg s'" using inv step sample_invariant_step by blast
  moreover have "live_invariant cfg s'"
    using step_live [OF assms(1,2), of s] inv step by auto
  ultimately show "sample_invariant cfg s' \<and> live_invariant cfg s'" ..
qed



section \<open>The adjusted lengths of stay of the page\<close>

lemma weighted_average_los_positive:
  assumes "\<forall>p. 0 \<le> page_ARRIVAL_RATES c p" and "0 < total_arrival_rate c"
    and "\<forall>p. 0 < current_mean_los c p"
  shows "0 < weighted_average_los c"
proof -
  let ?r = "page_ARRIVAL_RATES c" and ?l = "current_mean_los c"
  have total: "0 < ?r Medical + ?r Surgical"
    using assms(2) by (simp add: total_arrival_rate_def patient_types_def)
  have nonneg: "0 \<le> ?r Medical * ?l Medical" "0 \<le> ?r Surgical * ?l Surgical"
    using assms(1,3) by (simp_all add: less_imp_le)
  have "0 < ?r Medical \<or> 0 < ?r Surgical"
    using total assms(1) by (metis add_nonpos_nonpos not_le)
  then have "0 < ?r Medical * ?l Medical \<or> 0 < ?r Surgical * ?l Surgical"
    using assms(3) by auto
  then have "0 < ?r Medical * ?l Medical + ?r Surgical * ?l Surgical"
    using nonneg by linarith
  then show ?thesis
    using total by (simp add: weighted_average_los_def patient_types_def)
qed



end
